theory Spec2Isabelle
  imports Main "HOL-Library.Sublist"
begin

section \<open>Python strings\<close>

text \<open>
  A Python \<open>str\<close> is a sequence of Unicode code points. A code point is modelled as a
  natural number and a string as the list of its code points, so that \<open>length\<close>, indexing
  and the whitespace test count what Python counts.
\<close>

type_synonym cp = nat
type_synonym pystr = "cp list"

abbreviation NL :: cp where "NL \<equiv> 10"

definition ord :: "char \<Rightarrow> cp" where
  "ord c = of_char c"

definition S :: "string \<Rightarrow> pystr" where
  "S s = map ord s"

text \<open>
  \<open>str.strip\<close>, \<open>str.rstrip\<close> and the regular expression class \<open>\s\<close> (on \<open>str\<close>
  patterns) all use CPython's \<open>Py_UNICODE_ISSPACE\<close>: the code points U+0009..U+000D,
  U+001C..U+0020, U+0085, U+00A0, U+1680, U+2000..U+200A, U+2028, U+2029, U+202F, U+205F
  and U+3000.
\<close>

definition isspace :: "cp \<Rightarrow> bool" where
  "isspace c \<longleftrightarrow>
     (9 \<le> c \<and> c \<le> 13) \<or> (28 \<le> c \<and> c \<le> 32) \<or> c = 133 \<or> c = 160 \<or> c = 5760 \<or>
     (8192 \<le> c \<and> c \<le> 8202) \<or> c = 8232 \<or> c = 8233 \<or> c = 8239 \<or> c = 8287 \<or> c = 12288"

definition lstrip :: "pystr \<Rightarrow> pystr" where
  "lstrip s = dropWhile isspace s"

definition rstrip :: "pystr \<Rightarrow> pystr" where
  "rstrip s = rev (dropWhile isspace (rev s))"

definition strip :: "pystr \<Rightarrow> pystr" where
  "strip s = lstrip (rstrip s)"

text \<open>\<open>s.endswith('\n')\<close> and \<open>s.rstrip('\n')\<close>.\<close>

definition endswith_nl :: "pystr \<Rightarrow> bool" where
  "endswith_nl s \<longleftrightarrow> s \<noteq> [] \<and> last s = NL"

definition rstrip_nl :: "pystr \<Rightarrow> pystr" where
  "rstrip_nl s = rev (dropWhile (\<lambda>c. c = NL) (rev s))"

text \<open>\<open>s.split('\n')\<close>: never the empty list; \<open>''.split('\n') == ['']\<close>.\<close>

fun split_nl :: "pystr \<Rightarrow> pystr list" where
  "split_nl [] = [[]]"
| "split_nl (x # xs) =
     (if x = NL then [] # split_nl xs
      else (case split_nl xs of [] \<Rightarrow> [[x]] | l # ls \<Rightarrow> (x # l) # ls))"

text \<open>\<open>'\n'.join(lines)\<close>.\<close>

fun join_nl :: "pystr list \<Rightarrow> pystr" where
  "join_nl [] = []"
| "join_nl [l] = l"
| "join_nl (l # l' # ls) = l @ NL # join_nl (l' # ls)"

section \<open>The regular expressions of \<open>COMMENT_DEFINITIONS\<close>\<close>

text \<open>
  The patterns of the table use single characters, the classes \<open>[...]\<close>, \<open>[^...]\<close>,
  \<open>.\<close> and \<open>\s\<close>, the greedy repetitions \<open>*\<close> and \<open>+\<close> and the lazy \<open>*?\<close> of such a
  class, the anchors \<open>^\<close> and \<open>$\<close>, and, in the inline patterns, two groups side by side.
  A pattern is the list of its atoms; \<open>Mark\<close> stands for the boundary \<open>)(\<close> between
  group 1 and group 2 of an inline pattern, where the matcher notes the position.
\<close>

datatype cclass = Lit cp | OneOf "cp list" | NotIn "cp list" | Dot | Space

datatype atom = One cclass | Star cclass | Plus cclass | Lazy cclass | Bol | Eol | Mark

type_synonym regex = "atom list"

text \<open>\<open>.\<close> matches every character but the newline, and every character under \<open>re.DOTALL\<close>.\<close>

fun cmatch :: "bool \<Rightarrow> cclass \<Rightarrow> cp \<Rightarrow> bool" where
  "cmatch dotall (Lit a) x = (x = a)"
| "cmatch dotall (OneOf as) x = (x \<in> set as)"
| "cmatch dotall (NotIn as) x = (x \<notin> set as)"
| "cmatch dotall Dot x = (dotall \<or> x \<noteq> NL)"
| "cmatch dotall Space x = isspace x"

text \<open>
  The backtracking matcher of \<open>re\<close>: \<open>rmatch dotall acc p m pos s\<close> matches the atoms \<open>p\<close>
  against the rest \<open>s\<close> of the subject, which starts at position \<open>pos\<close> of the subject;
  \<open>m\<close> is the last position noted by \<open>Mark\<close>. A greedy repetition first takes one more
  character and gives it back when the rest of the pattern fails; a lazy one first tries
  the rest of the pattern. \<open>acc\<close> is the test made at the end of the pattern (the whole
  subject consumed, for \<open>fullmatch\<close>; a non-empty match, after an empty one in \<open>sub\<close>);
  when it fails the matcher backtracks. The result is the noted position and the end of
  the match. \<open>^\<close> holds at position 0; \<open>$\<close> holds at the end of the subject and before
  a newline that ends it (no \<open>re.MULTILINE\<close>).
\<close>

fun rmatch :: "bool \<Rightarrow> (nat \<Rightarrow> pystr \<Rightarrow> bool) \<Rightarrow> regex \<Rightarrow> nat \<Rightarrow> nat \<Rightarrow> pystr \<Rightarrow> (nat \<times> nat) option" where
  "rmatch d acc [] m pos s = (if acc pos s then Some (m, pos) else None)"
| "rmatch d acc (One c # p) m pos [] = None"
| "rmatch d acc (One c # p) m pos (x # xs) =
     (if cmatch d c x then rmatch d acc p m (Suc pos) xs else None)"
| "rmatch d acc (Star c # p) m pos [] = rmatch d acc p m pos []"
| "rmatch d acc (Star c # p) m pos (x # xs) =
     (if cmatch d c x then
        (case rmatch d acc (Star c # p) m (Suc pos) xs of
           Some r \<Rightarrow> Some r
         | None \<Rightarrow> rmatch d acc p m pos (x # xs))
      else rmatch d acc p m pos (x # xs))"
| "rmatch d acc (Plus c # p) m pos [] = None"
| "rmatch d acc (Plus c # p) m pos (x # xs) =
     (if cmatch d c x then rmatch d acc (Star c # p) m (Suc pos) xs else None)"
| "rmatch d acc (Lazy c # p) m pos [] = rmatch d acc p m pos []"
| "rmatch d acc (Lazy c # p) m pos (x # xs) =
     (case rmatch d acc p m pos (x # xs) of
        Some r \<Rightarrow> Some r
      | None \<Rightarrow> (if cmatch d c x then rmatch d acc (Lazy c # p) m (Suc pos) xs else None))"
| "rmatch d acc (Bol # p) m pos s = (if pos = 0 then rmatch d acc p m pos s else None)"
| "rmatch d acc (Eol # p) m pos s =
     (if s = [] \<or> s = [NL] then rmatch d acc p m pos s else None)"
| "rmatch d acc (Mark # p) m pos s = rmatch d acc p pos pos s"

text \<open>\<open>re.match(p, s)\<close> and \<open>re.fullmatch(p, s)\<close>, without flags; \<open>None\<close> is no match.\<close>

definition re_match :: "regex \<Rightarrow> pystr \<Rightarrow> (nat \<times> nat) option" where
  "re_match p s = rmatch False (\<lambda>e r. True) p 0 0 s"

definition re_fullmatch :: "regex \<Rightarrow> pystr \<Rightarrow> (nat \<times> nat) option" where
  "re_fullmatch p s = rmatch False (\<lambda>e r. r = []) p 0 0 s"

text \<open>The end of a match lies within the rest of the subject and passes the final test.\<close>

lemma rmatch_end_bounds:
  "rmatch d acc p m pos s = Some (k, e) \<Longrightarrow> pos \<le> e \<and> e \<le> pos + length s"
  by (induction d acc p m pos s rule: rmatch.induct)
     (fastforce split: if_splits option.splits)+

lemma rmatch_accepted:
  "rmatch d acc p m pos s = Some (k, e) \<Longrightarrow> \<exists>r. acc e r"
  by (induction d acc p m pos s rule: rmatch.induct)
     (fastforce split: if_splits option.splits)+

text \<open>
  \<open>re.sub(p, '', s, flags=re.DOTALL)\<close>: the subject is scanned from the left; where the
  pattern matches, the match is left out and the scan goes on at its end; where it does
  not, the character is kept. An empty match leaves nothing out, and the next search,
  at the same position, must not be empty again (\<open>must_advance\<close> in CPython's
  \<open>pattern_subx\<close>). \<open>pos\<close> is the position of \<open>s\<close> in the subject.
\<close>

function re_sub :: "regex \<Rightarrow> bool \<Rightarrow> nat \<Rightarrow> pystr \<Rightarrow> pystr" where
  "re_sub p adv pos s =
     (case rmatch True (\<lambda>e r. \<not> (adv \<and> e = pos)) p 0 pos s of
        Some (k, e) \<Rightarrow>
          (if e = pos then re_sub p True pos s
           else re_sub p False e (drop (e - pos) s))
      | None \<Rightarrow> (case s of [] \<Rightarrow> [] | x # xs \<Rightarrow> x # re_sub p False (Suc pos) xs))"
  by pat_completeness auto
termination
proof (relation "measures [\<lambda>(p, adv, pos, s). length s, \<lambda>(p, adv, pos, s). if adv then 0 else 1]")
  fix p :: regex and adv :: bool and pos :: nat and s :: pystr and x2 k e
  assume "rmatch True (\<lambda>e r. \<not> (adv \<and> e = pos)) p 0 pos s = Some x2" and "(k, e) = x2"
  then have m: "rmatch True (\<lambda>e r. \<not> (adv \<and> e = pos)) p 0 pos s = Some (k, e)"
    by simp
  {
    assume "e = pos"
    moreover have "\<not> (adv \<and> e = pos)"
      using rmatch_accepted [OF m] by simp
    ultimately show "((p, True, pos, s), p, adv, pos, s)
      \<in> measures [\<lambda>(p, adv, pos, s). length s, \<lambda>(p, adv, pos, s). if adv then 0 else 1]"
      by simp
  }
  {
    assume ne: "e \<noteq> pos"
    have "pos \<le> e \<and> e \<le> pos + length s"
      using rmatch_end_bounds [OF m] by simp
    with ne show "((p, False, e, drop (e - pos) s), p, adv, pos, s)
      \<in> measures [\<lambda>(p, adv, pos, s). length s, \<lambda>(p, adv, pos, s). if adv then 0 else 1]"
      by auto
  }
qed auto

declare re_sub.simps [simp del]

section \<open>The comment definitions and the language map\<close>

text \<open>
  A language definition is a dictionary with the keys \<open>inline\<close>, \<open>full_line\<close> and
  \<open>block_dotall\<close>; \<open>lang_def.get('inline', [])\<close> and \<open>lang_def.get('full_line', [])\<close>
  read a missing key as the empty list, \<open>lang_def.get('block_dotall')\<close> as \<open>None\<close>.
  An inline pattern is the pair of its two groups: \<open>(A)(B)\<close> is \<open>(A, B)\<close>, and
  \<open>match.group(1)\<close> is what \<open>A\<close> matched, from the start of the line.
\<close>

type_synonym inline_pattern = "regex \<times> regex"

record lang_def =
  inline :: "inline_pattern list"
  full_line :: "regex list"
  block_dotall :: "regex option"

definition inline_regex :: "inline_pattern \<Rightarrow> regex" where
  "inline_regex ip = fst ip @ Mark # snd ip"

abbreviation lit :: "char \<Rightarrow> atom" where
  "lit c \<equiv> One (Lit (ord c))"

abbreviation sp_tab :: cclass where
  "sp_tab \<equiv> OneOf [ord CHR '' '', 9]"

text \<open>\<open>(^[^#\n]*)([ \t]+#[^\n]*$)\<close>\<close>
definition inline_hash :: "cp list \<Rightarrow> inline_pattern" where
  "inline_hash excl =
     ([Bol, Star (NotIn excl)],
      [Plus sp_tab, lit CHR ''#'', Star (NotIn [NL]), Eol])"

text \<open>\<open>(^[^/\n]*)([ \t]+//[^\n]*$)\<close>\<close>
definition inline_slashes :: "cp list \<Rightarrow> inline_pattern" where
  "inline_slashes excl =
     ([Bol, Star (NotIn excl)],
      [Plus sp_tab, lit CHR ''/'', lit CHR ''/'', Star (NotIn [NL]), Eol])"

text \<open>\<open>(^[^/\n]*)([ \t]+/\*.*?\*/[ \t]*$)\<close>\<close>
definition inline_block :: "cp list \<Rightarrow> inline_pattern" where
  "inline_block excl =
     ([Bol, Star (NotIn excl)],
      [Plus sp_tab, lit CHR ''/'', lit CHR ''*'', Lazy Dot, lit CHR ''*'', lit CHR ''/'',
       Star sp_tab, Eol])"

text \<open>\<open>(^[^<\n]*)([ \t]+<!--.*?-->[ \t]*$)\<close>\<close>
definition inline_xml :: inline_pattern where
  "inline_xml =
     ([Bol, Star (NotIn [ord CHR ''<'', NL])],
      [Plus sp_tab, lit CHR ''<'', lit CHR ''!'', lit CHR ''-'', lit CHR ''-'', Lazy Dot,
       lit CHR ''-'', lit CHR ''-'', lit CHR ''>'', Star sp_tab, Eol])"

text \<open>\<open>^\s*#.*$\<close>\<close>
definition full_hash :: regex where
  "full_hash = [Bol, Star Space, lit CHR ''#'', Star Dot, Eol]"

text \<open>\<open>^\s*//.*$\<close>\<close>
definition full_slashes :: regex where
  "full_slashes = [Bol, Star Space, lit CHR ''/'', lit CHR ''/'', Star Dot, Eol]"

text \<open>\<open>^\s*/\*.*?\*/\s*$\<close>\<close>
definition full_block :: regex where
  "full_block =
     [Bol, Star Space, lit CHR ''/'', lit CHR ''*'', Lazy Dot, lit CHR ''*'', lit CHR ''/'',
      Star Space, Eol]"

text \<open>\<open>^\s*<!--.*?-->\s*$\<close>\<close>
definition full_xml :: regex where
  "full_xml =
     [Bol, Star Space, lit CHR ''<'', lit CHR ''!'', lit CHR ''-'', lit CHR ''-'', Lazy Dot,
      lit CHR ''-'', lit CHR ''-'', lit CHR ''>'', Star Space, Eol]"

text \<open>\<open>/\*.*?\*/\<close>\<close>
definition block_c :: regex where
  "block_c = [lit CHR ''/'', lit CHR ''*'', Lazy Dot, lit CHR ''*'', lit CHR ''/'']"

text \<open>\<open><!--.*?-->\<close>\<close>
definition block_xml :: regex where
  "block_xml =
     [lit CHR ''<'', lit CHR ''!'', lit CHR ''-'', lit CHR ''-'', Lazy Dot,
      lit CHR ''-'', lit CHR ''-'', lit CHR ''>'']"

abbreviation slash_nl :: "cp list" where
  "slash_nl \<equiv> [ord CHR ''/'', NL]"

abbreviation slash_nl_hash :: "cp list" where
  "slash_nl_hash \<equiv> [ord CHR ''/'', NL, ord CHR ''#'']"

definition python_like :: lang_def where
  "python_like =
     \<lparr>inline = [inline_hash [ord CHR ''#'', NL]], full_line = [full_hash],
      block_dotall = None\<rparr>"

definition c_like :: lang_def where
  "c_like =
     \<lparr>inline = [inline_slashes slash_nl, inline_block slash_nl],
      full_line = [full_slashes, full_block], block_dotall = Some block_c\<rparr>"

definition c_like_line_only :: lang_def where
  "c_like_line_only =
     \<lparr>inline = [inline_slashes slash_nl], full_line = [full_slashes], block_dotall = None\<rparr>"

definition xml_like :: lang_def where
  "xml_like = \<lparr>inline = [inline_xml], full_line = [full_xml], block_dotall = Some block_xml\<rparr>"

definition css_like :: lang_def where
  "css_like =
     \<lparr>inline = [inline_block slash_nl], full_line = [full_block],
      block_dotall = Some block_c\<rparr>"

definition php_like :: lang_def where
  "php_like =
     \<lparr>inline = [inline_slashes slash_nl_hash, inline_hash slash_nl_hash,
                inline_block slash_nl_hash],
      full_line = [full_slashes, full_hash, full_block], block_dotall = Some block_c\<rparr>"

definition LANGUAGE_MAP :: "(pystr \<times> lang_def) list" where
  "LANGUAGE_MAP =
     [(S ''.py'', python_like), (S ''.sh'', python_like), (S ''.rb'', python_like),
      (S ''.yml'', python_like), (S ''.yaml'', python_like),
      (S ''.js'', c_like), (S ''.java'', c_like), (S ''.c'', c_like), (S ''.cpp'', c_like),
      (S ''.cs'', c_like), (S ''.kts'', c_like), (S ''.kt'', c_like), (S ''.swift'', c_like),
      (S ''.ts'', c_like), (S ''.jsx'', c_like), (S ''.tsx'', c_like), (S ''.json'', c_like),
      (S ''.go'', c_like_line_only), (S ''.rs'', c_like_line_only),
      (S ''.xml'', xml_like), (S ''.html'', xml_like),
      (S ''.css'', css_like),
      (S ''.php'', php_like)]"

section \<open>The core: \<open>_remove_comments_universal\<close>\<close>

text \<open>
  Stage 2a (\<open>remove_all\<close> only): does one of the full-line patterns match the whole
  stripped line?
\<close>

definition is_full_line_comment_type :: "lang_def \<Rightarrow> pystr \<Rightarrow> bool" where
  "is_full_line_comment_type ld line =
     list_ex (\<lambda>p. re_fullmatch p (strip line) \<noteq> None) (full_line ld)"

text \<open>
  Stage 2b, the \<open>for\<close> loop over the inline patterns: each pattern is matched against the
  line as the patterns before it left it. Under \<open>remove_all\<close> a match always cuts the line
  to the right-stripped code part; otherwise only when the code part holds more than
  whitespace.
\<close>

fun inline_pass :: "bool \<Rightarrow> inline_pattern list \<Rightarrow> pystr \<Rightarrow> pystr" where
  "inline_pass remove_all [] temp = temp"
| "inline_pass remove_all (ip # ips) temp =
     (case re_match (inline_regex ip) temp of
        None \<Rightarrow> inline_pass remove_all ips temp
      | Some (k, e) \<Rightarrow>
          (let code_part = take k temp in
           if remove_all then inline_pass remove_all ips (rstrip code_part)
           else if strip code_part \<noteq> [] then inline_pass remove_all ips (rstrip code_part)
           else inline_pass remove_all ips temp))"

text \<open>A pass cuts the line to a prefix of itself, so a pass that changes the line shortens it.\<close>

lemma rstrip_prefix: "prefix (rstrip s) s"
proof -
  have "rev (takeWhile isspace (rev s) @ dropWhile isspace (rev s)) = rev (rev s)"
    by (simp only: takeWhile_dropWhile_id)
  then have "rstrip s @ rev (takeWhile isspace (rev s)) = s"
    by (simp only: rev_append rev_rev_ident rstrip_def)
  then show ?thesis by (metis prefixI)
qed

lemma rstrip_take_prefix: "prefix (rstrip (take k s)) s"
  using rstrip_prefix [of "take k s"] take_is_prefix [of k s] by (rule prefix_order.trans)

lemma inline_pass_prefix: "prefix (inline_pass remove_all ips temp) temp"
proof (induction ips arbitrary: temp)
  case Nil
  show ?case by simp
next
  case (Cons ip ips)
  have cut: "prefix (inline_pass remove_all ips (rstrip (take k temp))) temp" for k
    using Cons.IH [of "rstrip (take k temp)"] rstrip_take_prefix [of k temp]
    by (rule prefix_order.trans)
  show ?case
  proof (cases "re_match (inline_regex ip) temp")
    case None
    then show ?thesis using Cons.IH [of temp] by simp
  next
    case (Some ke)
    then show ?thesis using Cons.IH [of temp] cut [of "fst ke"]
      by (cases ke; cases remove_all) (simp_all add: Let_def)
  qed
qed

lemma inline_pass_shorter:
  assumes "inline_pass remove_all ips temp \<noteq> temp"
  shows "length (inline_pass remove_all ips temp) < length temp"
proof -
  obtain zs where zs: "temp = inline_pass remove_all ips temp @ zs"
    using inline_pass_prefix [of remove_all ips temp] by (auto simp: prefix_def)
  with assms have "zs \<noteq> []" by auto
  then have "length (inline_pass remove_all ips temp) < length (inline_pass remove_all ips temp @ zs)"
    by simp
  with zs show ?thesis by simp
qed

text \<open>
  The \<open>while\<close> loop around the passes: it runs while the line differs from what it was
  before the last pass; the first comparison is against the empty string.
\<close>

function inline_while :: "bool \<Rightarrow> inline_pattern list \<Rightarrow> pystr \<Rightarrow> pystr \<Rightarrow> pystr" where
  "inline_while remove_all ips previous temp =
     (if previous \<noteq> temp
      then inline_while remove_all ips temp (inline_pass remove_all ips temp)
      else temp)"
  by pat_completeness auto
termination
proof (relation "measure (\<lambda>(remove_all, ips, previous, temp).
    2 * length temp + (if previous \<noteq> temp then 1 else 0))")
  fix remove_all :: bool and ips :: "inline_pattern list" and previous temp :: pystr
  assume "previous \<noteq> temp"
  then show "((remove_all, ips, temp, inline_pass remove_all ips temp), remove_all, ips, previous, temp)
    \<in> measure (\<lambda>(remove_all, ips, previous, temp).
        2 * length temp + (if previous \<noteq> temp then 1 else 0))"
    using inline_pass_shorter [of remove_all ips temp] by auto
qed simp

declare inline_while.simps [simp del]

text \<open>The body of the loop over the lines, for one line.\<close>

definition process_line :: "lang_def \<Rightarrow> bool \<Rightarrow> pystr \<Rightarrow> pystr" where
  "process_line ld remove_all line_text =
     (if remove_all \<and> is_full_line_comment_type ld line_text then []
      else inline_while remove_all (inline ld) [] line_text)"

text \<open>
  Stage 1: the block pattern, when the language has one (\<open>None\<close> and the empty pattern
  string are both false in Python), is removed from the whole content.
\<close>

definition block_stage :: "lang_def \<Rightarrow> bool \<Rightarrow> pystr \<Rightarrow> pystr" where
  "block_stage ld remove_all content =
     (if remove_all then
        (case block_dotall ld of
           None \<Rightarrow> content
         | Some p \<Rightarrow> if p \<noteq> [] then re_sub p False 0 content else content)
      else content)"

text \<open>
  The clean-up of \<open>remove_all\<close>. The loop of step 2 appends a line to \<open>cleaned_stage2\<close>
  when it is not empty, or when \<open>cleaned_stage2\<close> is empty or ends with a non-empty line.
\<close>

fun collapse_loop :: "pystr list \<Rightarrow> pystr list \<Rightarrow> pystr list" where
  "collapse_loop cleaned_stage2 [] = cleaned_stage2"
| "collapse_loop cleaned_stage2 (line_text # rest) =
     (if line_text \<noteq> [] then collapse_loop (cleaned_stage2 @ [line_text]) rest
      else if cleaned_stage2 = [] \<or> last cleaned_stage2 \<noteq> []
        then collapse_loop (cleaned_stage2 @ [[]]) rest
      else collapse_loop cleaned_stage2 rest)"

text \<open>\<open>while cleaned_stage2 and cleaned_stage2[0] == "": cleaned_stage2.pop(0)\<close>\<close>

fun pop_leading :: "pystr list \<Rightarrow> pystr list" where
  "pop_leading [] = []"
| "pop_leading (l # ls) = (if l = [] then pop_leading ls else l # ls)"

text \<open>\<open>while len(cleaned_stage2) > 1 and cleaned_stage2[-1] == "": cleaned_stage2.pop()\<close>\<close>

function pop_trailing :: "pystr list \<Rightarrow> pystr list" where
  "pop_trailing ls =
     (if length ls > 1 \<and> last ls = [] then pop_trailing (butlast ls) else ls)"
  by pat_completeness auto
termination
  by (relation "measure length") auto

declare pop_trailing.simps [simp del]

definition blank_stage :: "pystr list \<Rightarrow> pystr list" where
  "blank_stage result_lines =
     (let cleaned_stage1 = map (\<lambda>line. if strip line \<noteq> [] then line else []) result_lines in
      if cleaned_stage1 \<noteq> [] then
        (let cleaned_stage2 = collapse_loop [] cleaned_stage1 in
         if cleaned_stage2 \<noteq> [] then
           (let popped = pop_leading cleaned_stage2 in
            if popped \<noteq> [] then pop_trailing popped else popped)
         else cleaned_stage2)
      else [])"

text \<open>The handling of the final newline, from \<open>final_content = "\n".join(result_lines)\<close> on.\<close>

definition newline_stage :: "pystr \<Rightarrow> pystr list \<Rightarrow> pystr" where
  "newline_stage content result_lines =
     (let final_content = join_nl result_lines;
          original_had_trailing_newline = endswith_nl content in
      if final_content = [] \<and> result_lines = [] \<and> content = [NL] then [NL]
      else if final_content = [] \<and> result_lines = [] \<and> content = [] then []
      else if final_content \<noteq> [] then
        (if original_had_trailing_newline then
           (if \<not> endswith_nl final_content then final_content @ [NL] else final_content)
         else
           (if endswith_nl final_content then rstrip_nl final_content else final_content))
      else if original_had_trailing_newline then [NL]
      else final_content)"

definition remove_comments_universal :: "pystr \<Rightarrow> lang_def \<Rightarrow> bool \<Rightarrow> pystr" where
  "remove_comments_universal content ld remove_all =
     (let processed_content = block_stage ld remove_all content;
          lines = split_nl processed_content;
          result_lines = map (process_line ld remove_all) lines;
          result_lines = (if remove_all then blank_stage result_lines else result_lines)
      in newline_stage content result_lines)"

section \<open>The wrapper: \<open>process_code_content\<close>\<close>

text \<open>
  \<open>LANGUAGE_MAP.get(file_extension.lower())\<close>. \<open>str.lower\<close> is Python's built-in, with
  the case mapping of the whole of Unicode; it is a parameter here. \<open>ascii_lower\<close> is
  \<open>str.lower\<close> on ASCII strings. Every value of the map is a non-empty dictionary, so
  \<open>not lang_def\<close> holds for a missing key only.
\<close>

definition ascii_lower :: "pystr \<Rightarrow> pystr" where
  "ascii_lower s = map (\<lambda>c. if 65 \<le> c \<and> c \<le> 90 then c + 32 else c) s"

definition process_code_content ::
    "(pystr \<Rightarrow> pystr) \<Rightarrow> pystr \<Rightarrow> pystr \<Rightarrow> bool \<Rightarrow> pystr" where
  "process_code_content lower content file_extension remove_all_comments_flag =
     (case map_of LANGUAGE_MAP (lower file_extension) of
        None \<Rightarrow> content
      | Some ld \<Rightarrow> remove_comments_universal content ld remove_all_comments_flag)"

section \<open>The caller: \<open>process_file\<close>\<close>

text \<open>
  \<open>process_file\<close> prints one line and may write the file. What it prints is a value
  here, one constructor for each \<open>print\<close> of the function, with the path and, for an
  error, the text of the exception.
\<close>

datatype 'p report =
    Skipping_unsupported 'p
  | Would_modify 'p
  | Modified 'p
  | No_changes_needed 'p
  | Skipping_not_text 'p
  | Error_processing 'p pystr

text \<open>
  What \<open>open(file_path, 'r', encoding='utf-8')\<close> and \<open>f.read()\<close> give: the text, a
  \<open>UnicodeDecodeError\<close>, or another exception with its text.
\<close>

datatype read_result = Content pystr | UnicodeDecodeError | OtherException pystr

text \<open>
  The file system and \<open>pathlib\<close> are parameters: \<open>suffix\<close> is \<open>Path.suffix\<close>,
  \<open>read_text\<close> the reading of a file, and \<open>write_text\<close> the writing, which gives the text
  of the exception when it raises one.
\<close>

record 'p io =
  suffix :: "'p \<Rightarrow> pystr"
  read_text :: "'p \<Rightarrow> read_result"
  write_text :: "'p \<Rightarrow> pystr \<Rightarrow> pystr option"

text \<open>
  The result is the line printed and the write done, if any. An extension that is not a
  key of \<open>LANGUAGE_MAP\<close> once lowered is reported before the file is opened; the two
  \<open>except\<close> clauses are the branches \<open>UnicodeDecodeError\<close> and \<open>OtherException\<close>, the second
  also for a write that raises.
\<close>

definition process_file ::
    "(pystr \<Rightarrow> pystr) \<Rightarrow> 'p io \<Rightarrow> 'p \<Rightarrow> bool \<Rightarrow> bool \<Rightarrow> 'p report \<times> ('p \<times> pystr) option" where
  "process_file lower io file_path dry_run remove_all_comments =
     (let file_extension = suffix io file_path in
      if map_of LANGUAGE_MAP (lower file_extension) = None
      then (Skipping_unsupported file_path, None)
      else
        (case read_text io file_path of
           UnicodeDecodeError \<Rightarrow> (Skipping_not_text file_path, None)
         | OtherException e \<Rightarrow> (Error_processing file_path e, None)
         | Content content \<Rightarrow>
             (let new_content =
                process_code_content lower content file_extension remove_all_comments in
              if content \<noteq> new_content then
                (if dry_run then (Would_modify file_path, None)
                 else
                   (case write_text io file_path new_content of
                      Some e \<Rightarrow> (Error_processing file_path e, None)
                    | None \<Rightarrow> (Modified file_path, Some (file_path, new_content))))
              else (No_changes_needed file_path, None))))"

section \<open>Splitting and joining lines\<close>

lemma split_nl_nonempty [simp]: "split_nl s \<noteq> []"
  by (induction s) (auto split: list.splits)

lemma join_nl_Cons: "ls \<noteq> [] \<Longrightarrow> join_nl (l # ls) = l @ NL # join_nl ls"
  by (cases ls) simp_all

lemma join_split_nl [simp]: "join_nl (split_nl s) = s"
proof (induction s)
  case Nil
  show ?case by simp
next
  case (Cons x xs)
  show ?case
  proof (cases "split_nl xs")
    case Nil
    then show ?thesis using split_nl_nonempty [of xs] by simp
  next
    case (Cons l ls)
    with Cons.IH show ?thesis
      by (cases ls) (auto simp: join_nl_Cons)
  qed
qed

lemma split_nl_no_nl: "l \<in> set (split_nl s) \<Longrightarrow> NL \<notin> set l"
  by (induction s arbitrary: l) (auto split: if_splits list.splits)

lemma split_nl_plain: "NL \<notin> set l \<Longrightarrow> split_nl l = [l]"
  by (induction l) auto

lemma split_nl_append: "NL \<notin> set l \<Longrightarrow> split_nl (l @ NL # s) = l # split_nl s"
  by (induction l) auto

lemma split_join_nl:
  "ls \<noteq> [] \<Longrightarrow> \<forall>l\<in>set ls. NL \<notin> set l \<Longrightarrow> split_nl (join_nl ls) = ls"
proof (induction ls rule: join_nl.induct)
  case 1
  then show ?case by simp
next
  case (2 l)
  then show ?case by (simp add: split_nl_plain)
next
  case (3 l l' ls)
  then show ?case by (simp add: split_nl_append)
qed

lemma split_nl_snoc_nl: "split_nl (s @ [NL]) = split_nl s @ [[]]"
  by (induction s) (auto split: list.splits)

lemma split_nl_snoc:
  "x \<noteq> NL \<Longrightarrow> split_nl (s @ [x]) = butlast (split_nl s) @ [last (split_nl s) @ [x]]"
  by (induction s) (auto split: list.splits)

lemma endswith_nl_split:
  "endswith_nl s \<longleftrightarrow> length (split_nl s) \<ge> 2 \<and> last (split_nl s) = []"
proof (cases s rule: rev_cases)
  case Nil
  then show ?thesis by (simp add: endswith_nl_def)
next
  case (snoc ys y)
  show ?thesis
  proof (cases "y = NL")
    case True
    with snoc show ?thesis
      using split_nl_nonempty [of ys]
      by (cases "split_nl ys") (simp_all add: endswith_nl_def split_nl_snoc_nl)
  next
    case False
    with snoc show ?thesis
      by (simp add: endswith_nl_def split_nl_snoc)
  qed
qed

lemma split_nl_eq_single_Nil: "split_nl s = [[]] \<longleftrightarrow> s = []"
  by (cases s) (auto split: list.splits)

section \<open>The inline loop\<close>

lemma inline_while_same [simp]: "inline_while remove_all ips temp temp = temp"
  by (simp add: inline_while.simps [of _ _ temp temp])

lemma inline_while_diff:
  "previous \<noteq> temp \<Longrightarrow>
   inline_while remove_all ips previous temp =
   inline_while remove_all ips temp (inline_pass remove_all ips temp)"
  by (simp add: inline_while.simps [of _ _ previous temp])

lemma inline_while_prefix: "prefix (inline_while remove_all ips previous temp) temp"
proof (induction remove_all ips previous temp rule: inline_while.induct)
  case (1 remove_all ips previous temp)
  show ?case
  proof (cases "previous = temp")
    case True
    then show ?thesis by (simp add: inline_while_diff)
  next
    case False
    with "1.IH" have "prefix (inline_while remove_all ips previous temp)
        (inline_pass remove_all ips temp)"
      by (simp add: inline_while_diff)
    then show ?thesis
      using inline_pass_prefix [of remove_all ips temp] by (rule prefix_order.trans)
  qed
qed

lemma inline_while_fixed_aux:
  "temp = inline_pass remove_all ips previous \<Longrightarrow>
   inline_pass remove_all ips (inline_while remove_all ips previous temp) =
   inline_while remove_all ips previous temp"
proof (induction remove_all ips previous temp rule: inline_while.induct)
  case (1 remove_all ips previous temp)
  show ?case
  proof (cases "previous = temp")
    case True
    with "1.prems" show ?thesis by (simp add: inline_while_diff)
  next
    case False
    with "1.IH" show ?thesis
      by (simp add: inline_while_diff)
  qed
qed

lemma inline_pass_Nil [simp]: "inline_pass remove_all ips [] = []"
  using inline_pass_prefix [of remove_all ips "[]"] by simp

lemma inline_while_fixed:
  "inline_pass remove_all ips (inline_while remove_all ips [] temp) =
   inline_while remove_all ips [] temp"
proof (cases "temp = []")
  case True
  then show ?thesis by simp
next
  case False
  then have "inline_while remove_all ips [] temp =
      inline_while remove_all ips temp (inline_pass remove_all ips temp)"
    by (simp add: inline_while_diff)
  then show ?thesis
    using inline_while_fixed_aux [of "inline_pass remove_all ips temp" remove_all ips temp]
    by simp
qed

lemma inline_while_of_fixed:
  "inline_pass remove_all ips temp = temp \<Longrightarrow> inline_while remove_all ips previous temp = temp"
  by (cases "previous = temp") (simp_all add: inline_while_diff)

lemma inline_while_passes:
  "\<exists>n. n \<le> length temp + (if previous \<noteq> temp then 1 else 0) \<and>
       inline_while remove_all ips previous temp = (inline_pass remove_all ips ^^ n) temp"
proof (induction remove_all ips previous temp rule: inline_while.induct)
  case (1 remove_all ips previous temp)
  show ?case
  proof (cases "previous = temp")
    case True
    then have "inline_while remove_all ips previous temp = (inline_pass remove_all ips ^^ 0) temp"
      by (simp add: inline_while_diff)
    then show ?thesis by blast
  next
    case False
    let ?t = "inline_pass remove_all ips temp"
    from False "1.IH" obtain n where
      n: "n \<le> length ?t + (if temp \<noteq> ?t then 1 else 0)" and
      w: "inline_while remove_all ips temp ?t = (inline_pass remove_all ips ^^ n) ?t"
      by blast
    have "Suc n \<le> length temp + 1"
    proof (cases "?t = temp")
      case True
      with n show ?thesis by simp
    next
      case False
      then have "length ?t < length temp" by (rule inline_pass_shorter)
      with n False show ?thesis by simp
    qed
    moreover have "inline_while remove_all ips previous temp =
        (inline_pass remove_all ips ^^ Suc n) temp"
      using False w by (simp add: inline_while_diff funpow_swap1)
    ultimately show ?thesis using False by (intro exI [of _ "Suc n"]) simp
  qed
qed

text \<open>Without \<open>remove_all\<close> a line that is not empty is never cut to the empty line.\<close>

lemma strip_nonempty_rstrip: "strip s \<noteq> [] \<Longrightarrow> rstrip s \<noteq> []"
  by (auto simp: strip_def lstrip_def)

lemma inline_pass_False_Nil: "inline_pass False ips temp = [] \<Longrightarrow> temp = []"
proof (induction ips arbitrary: temp)
  case Nil
  then show ?case by simp
next
  case (Cons ip ips)
  show ?case
  proof (cases "re_match (inline_regex ip) temp")
    case None
    with Cons show ?thesis by simp
  next
    case (Some ke)
    obtain k e where ke: "ke = (k, e)" by (cases ke)
    show ?thesis
    proof (cases "strip (take k temp) = []")
      case True
      with Some ke Cons show ?thesis by (simp add: Let_def)
    next
      case False
      with Some ke Cons.prems have "inline_pass False ips (rstrip (take k temp)) = []"
        by (simp add: Let_def)
      then have "rstrip (take k temp) = []" by (rule Cons.IH)
      with False show ?thesis using strip_nonempty_rstrip by blast
    qed
  qed
qed

lemma inline_while_False_Nil: "inline_while False ips previous temp = [] \<Longrightarrow> temp = []"
proof (induction False ips previous temp rule: inline_while.induct)
  case (1 ips previous temp)
  show ?case
  proof (cases "previous = temp")
    case True
    with "1.prems" show ?thesis by (simp add: inline_while_diff)
  next
    case False
    with "1.prems" "1.hyps" have "inline_pass False ips temp = []"
      by (simp add: inline_while_diff)
    then show ?thesis by (rule inline_pass_False_Nil)
  qed
qed

section \<open>Lines without \<open>remove_all\<close>\<close>

lemma process_line_prefix: "prefix (process_line ld remove_all line) line"
  by (simp add: process_line_def inline_while_prefix)

lemma process_line_False_Nil: "process_line ld False line = [] \<longleftrightarrow> line = []"
  using inline_while_False_Nil [of "inline ld" "[]" line] by (auto simp: process_line_def)

lemma prefix_no_nl: "prefix a b \<Longrightarrow> NL \<notin> set b \<Longrightarrow> NL \<notin> set a"
  by (auto simp: prefix_def)

lemma process_lines_no_nl:
  "l \<in> set (map (process_line ld remove_all) (split_nl s)) \<Longrightarrow> NL \<notin> set l"
  using process_line_prefix split_nl_no_nl prefix_no_nl by fastforce

lemma join_nl_eq_Nil: "join_nl ls = [] \<longleftrightarrow> ls = [] \<or> ls = [[]]"
  by (induction ls rule: join_nl.induct) auto

lemma newline_stage_inline:
  "newline_stage content (map (process_line ld False) (split_nl content)) =
   join_nl (map (process_line ld False) (split_nl content))"
proof -
  let ?R = "map (process_line ld False) (split_nl content)"
  have ne: "?R \<noteq> []" by simp
  have nl: "\<forall>l\<in>set ?R. NL \<notin> set l"
    using process_lines_no_nl by blast
  have split: "split_nl (join_nl ?R) = ?R"
    using ne nl by (rule split_join_nl)
  have last: "last ?R = [] \<longleftrightarrow> last (split_nl content) = []"
    by (simp add: last_map process_line_False_Nil)
  have ends: "endswith_nl (join_nl ?R) \<longleftrightarrow> endswith_nl content"
    by (simp only: endswith_nl_split [of "join_nl ?R"] split endswith_nl_split [of content]
        last length_map)
  have empty: "\<not> endswith_nl []" by (simp add: endswith_nl_def)
  show ?thesis
  proof (cases "join_nl ?R = []")
    case True
    with ends empty have "\<not> endswith_nl content" by simp
    with True ne show ?thesis by (simp add: newline_stage_def Let_def)
  next
    case False
    with ne ends show ?thesis by (simp add: newline_stage_def Let_def)
  qed
qed

lemma remove_comments_inline:
  "remove_comments_universal content ld False =
   join_nl (map (process_line ld False) (split_nl content))"
  by (simp add: remove_comments_universal_def block_stage_def Let_def newline_stage_inline)

lemma split_remove_comments_inline:
  "split_nl (remove_comments_universal content ld False) =
   map (process_line ld False) (split_nl content)"
proof -
  have "\<forall>l\<in>set (map (process_line ld False) (split_nl content)). NL \<notin> set l"
    using process_lines_no_nl by blast
  then show ?thesis
    by (simp only: remove_comments_inline) (rule split_join_nl, simp)
qed

section \<open>The wrapper and the inline-only mode\<close>

lemmas eval_strings = S_def ord_def

lemmas eval_table = LANGUAGE_MAP_def ascii_lower_def

text \<open>
  A file system for concrete runs: a path is a name of five letters and its suffix, no
  file can be read as text and none can be written.
\<close>

definition locked_io :: "pystr io" where
  "locked_io =
     \<lparr>suffix = (\<lambda>p. drop 5 p), read_text = (\<lambda>p. UnicodeDecodeError),
      write_text = (\<lambda>p c. Some (S ''read-only''))\<rparr>"

text \<open>
  C6. For an extension that is not a key of \<open>LANGUAGE_MAP\<close> once lowered, and for both
  modes, the transform returns its input as it is. \<open>process_file\<close> reports such a file as
  skipped for its unsupported type: it prints no error, it does not read the file (the
  report is the same whatever reading would give) and it writes nothing.
\<close>

theorem C6_unknown_extension_noop:
  "map_of LANGUAGE_MAP (lower file_extension) = None \<Longrightarrow>
   process_code_content lower content file_extension remove_all = content \<and>
   (suffix io file_path = file_extension \<longrightarrow>
      process_file lower io file_path dry_run remove_all =
        (Skipping_unsupported file_path, None) \<and>
      fst (process_file lower io file_path dry_run remove_all) \<noteq> Error_processing file_path e \<and>
      fst (process_file lower io file_path dry_run remove_all) \<noteq> Skipping_not_text file_path)"
  by (simp add: process_code_content_def process_file_def)

theorem C6_unknown_extension_noop_witness:
  "map_of LANGUAGE_MAP (ascii_lower (S ''.TXT'')) = None \<and>
   map_of LANGUAGE_MAP (ascii_lower (S ''.PY'')) = Some python_like \<and>
   process_code_content ascii_lower (S ''x = 1  # note'') (S ''.TXT'') True = S ''x = 1  # note'' \<and>
   suffix locked_io (S ''notes.TXT'') = S ''.TXT'' \<and>
   process_file ascii_lower locked_io (S ''notes.TXT'') False True =
     (Skipping_unsupported (S ''notes.TXT''), None) \<and>
   process_file ascii_lower locked_io (S ''notes.PY'') False True =
     (Skipping_not_text (S ''notes.PY''), None)"
proof -
  have h: "map_of LANGUAGE_MAP (ascii_lower (S ''.TXT'')) = None"
    by (simp add: eval_table eval_strings)
  have py: "map_of LANGUAGE_MAP (ascii_lower (S ''.PY'')) = Some python_like"
    by (simp add: eval_table eval_strings)
  have s: "suffix locked_io (S ''notes.TXT'') = S ''.TXT''"
    "suffix locked_io (S ''notes.PY'') = S ''.PY''"
    by (simp_all add: locked_io_def eval_strings)
  have r: "read_text locked_io (S ''notes.PY'') = UnicodeDecodeError"
    by (simp add: locked_io_def)
  have "process_file ascii_lower locked_io (S ''notes.PY'') False True =
      (Skipping_not_text (S ''notes.PY''), None)"
    by (simp add: process_file_def s py r)
  then show ?thesis
    using h py s C6_unknown_extension_noop
      [of ascii_lower "S ''.TXT''" "S ''x = 1  # note''" True locked_io "S ''notes.TXT''" False,
       OF h]
    by simp
qed

text \<open>
  C9. Without \<open>remove_all\<close> the output splits into as many lines as the input, for
  every content and every extension, and it ends with a newline exactly when the input
  does.
\<close>

theorem C9_inline_only_keeps_line_count:
  "length (split_nl (process_code_content lower content file_extension False)) =
     length (split_nl content) \<and>
   endswith_nl (process_code_content lower content file_extension False) =
     endswith_nl content"
proof (cases "map_of LANGUAGE_MAP (lower file_extension)")
  case None
  then show ?thesis by (simp add: process_code_content_def)
next
  case (Some ld)
  have len: "length (split_nl (remove_comments_universal content ld False)) =
      length (split_nl content)"
    by (simp add: split_remove_comments_inline)
  have "last (split_nl (remove_comments_universal content ld False)) = [] \<longleftrightarrow>
      last (split_nl content) = []"
    by (simp add: split_remove_comments_inline last_map process_line_False_Nil)
  with len have "endswith_nl (remove_comments_universal content ld False) =
      endswith_nl content"
    by (simp only: endswith_nl_split)
  with len Some show ?thesis by (simp add: process_code_content_def)
qed

text \<open>
  C10. Without \<open>remove_all\<close> every line of the output is a prefix of the line of the
  input at the same place, and so is the result of every pass over the inline patterns.
\<close>

theorem C10_inline_only_lines_are_prefixes:
  "list_all2 prefix (split_nl (process_code_content lower content file_extension False))
     (split_nl content) \<and>
   prefix (inline_pass False ips temp) temp"
proof (cases "map_of LANGUAGE_MAP (lower file_extension)")
  case None
  then show ?thesis
    by (simp add: process_code_content_def inline_pass_prefix list_all2_same)
next
  case (Some ld)
  have "list_all2 prefix (map (process_line ld False) (split_nl content)) (split_nl content)"
    by (simp add: list_all2_map1 list_all2_same process_line_prefix)
  with Some show ?thesis
    by (simp add: process_code_content_def split_remove_comments_inline inline_pass_prefix)
qed

section \<open>The concrete scenario of the C family\<close>

lemmas eval_regex =
  re_fullmatch_def re_match_def inline_regex_def inline_hash_def inline_slashes_def
  inline_block_def inline_xml_def full_hash_def full_slashes_def full_block_def full_xml_def
  block_c_def block_xml_def

lemmas eval_lang =
  python_like_def c_like_def c_like_line_only_def xml_like_def css_like_def php_like_def

lemmas eval_line =
  process_line_def is_full_line_comment_type_def strip_def lstrip_def rstrip_def isspace_def
  inline_while.simps Let_def

lemmas eval_stages =
  blank_stage_def pop_trailing.simps newline_stage_def endswith_nl_def rstrip_nl_def Let_def

definition scenario_c :: pystr where
  "scenario_c = S ''int x = 1; /* hi'' @ [NL] @ S ''there */'' @ [NL] @ S ''int y;'' @ [NL]"

definition scenario_c_out :: pystr where
  "scenario_c_out = S ''int x = 1; '' @ [NL] @ S ''int y;'' @ [NL]"

lemma scenario_c_block: "block_stage c_like True scenario_c = scenario_c_out"
  by (simp add: scenario_c_def scenario_c_out_def block_stage_def eval_lang eval_regex
      eval_strings re_sub.simps)

lemma scenario_c_split:
  "split_nl scenario_c_out = [S ''int x = 1; '', S ''int y;'', []]"
  by (simp add: scenario_c_out_def eval_strings)

lemma scenario_c_lines:
  "map (process_line c_like True) [S ''int x = 1; '', S ''int y;'', []] =
   [S ''int x = 1; '', S ''int y;'', []]"
  by (simp add: eval_line eval_lang eval_regex eval_strings)

lemma scenario_c_blank:
  "blank_stage [S ''int x = 1; '', S ''int y;'', []] = [S ''int x = 1; '', S ''int y;'']"
  by (simp add: eval_stages strip_def lstrip_def rstrip_def isspace_def eval_strings)

lemma scenario_c_newline:
  "newline_stage scenario_c [S ''int x = 1; '', S ''int y;''] = scenario_c_out"
  by (simp add: scenario_c_def scenario_c_out_def eval_stages eval_strings)

lemma scenario_c_ext: "map_of LANGUAGE_MAP (ascii_lower (S ''.c'')) = Some c_like"
  by (simp add: eval_table eval_strings)

text \<open>
  C8. For \<open>.c\<close> under \<open>remove_all\<close>, the block comment over two lines of
  \<open>int x = 1; /* hi\<close>, \<open>there */\<close>, \<open>int y;\<close> is removed by the block pass, which leaves
  \<open>int x = 1; \<close> (with its space) and \<open>int y;\<close>; that is also the final output.
\<close>

theorem C8_block_comment_scenario:
  "block_stage c_like True scenario_c = scenario_c_out \<and>
   process_code_content ascii_lower scenario_c (S ''.c'') True = scenario_c_out \<and>
   scenario_c_out = S ''int x = 1; '' @ [NL] @ S ''int y;'' @ [NL]"
proof -
  have "remove_comments_universal scenario_c c_like True = scenario_c_out"
    unfolding remove_comments_universal_def Let_def
    by (simp only: scenario_c_block scenario_c_split scenario_c_lines scenario_c_blank
        scenario_c_newline if_True)
  then show ?thesis
    by (simp add: process_code_content_def scenario_c_ext scenario_c_block)
      (simp add: scenario_c_out_def)
qed

section \<open>Termination of the inline loop\<close>

definition note_line :: pystr where
  "note_line = S ''x = 1  # note''"

lemma note_line_pass:
  "inline_pass True (inline python_like) note_line = S ''x = 1''"
  by (simp add: note_line_def eval_lang eval_regex eval_strings rstrip_def isspace_def)

lemma note_line_pass2:
  "inline_pass True (inline python_like) (S ''x = 1'') = S ''x = 1''"
  by (simp add: eval_lang eval_regex eval_strings rstrip_def isspace_def)

lemma note_line_while:
  "inline_while True (inline python_like) [] note_line = S ''x = 1''"
proof -
  have ne: "[] \<noteq> note_line" "note_line \<noteq> S ''x = 1''"
    by (simp_all add: note_line_def eval_strings)
  show ?thesis
    by (simp add: inline_while_diff ne note_line_pass note_line_pass2)
qed

text \<open>
  C7. The loop over the inline patterns ends for every line, every list of patterns and
  both modes. \<open>inline_while\<close> is a total function: its recursion is accepted with the
  measure twice the length of the line, plus one while the line differs from the previous
  one. A pass that changes the line makes it shorter; the loop returns after at most
  \<open>length line + 1\<close> passes; and what it returns is left unchanged by one more pass.
\<close>

theorem C7_inline_loop_terminates:
  "(inline_pass remove_all ips temp \<noteq> temp \<longrightarrow>
      length (inline_pass remove_all ips temp) < length temp) \<and>
   (\<exists>n. n \<le> length temp + 1 \<and>
      inline_while remove_all ips [] temp = (inline_pass remove_all ips ^^ n) temp) \<and>
   inline_pass remove_all ips (inline_while remove_all ips [] temp) =
     inline_while remove_all ips [] temp"
proof -
  obtain n where "n \<le> length temp + (if [] \<noteq> temp then 1 else 0)"
    and "inline_while remove_all ips [] temp = (inline_pass remove_all ips ^^ n) temp"
    using inline_while_passes [of temp "[]" remove_all ips] by blast
  then have "\<exists>n. n \<le> length temp + 1 \<and>
      inline_while remove_all ips [] temp = (inline_pass remove_all ips ^^ n) temp"
    by (intro exI [of _ n]) (simp split: if_splits)
  then show ?thesis
    using inline_pass_shorter [of remove_all ips temp] inline_while_fixed [of remove_all ips temp]
    by blast
qed

theorem C7_inline_loop_terminates_witness:
  "inline_pass True (inline python_like) note_line \<noteq> note_line \<and>
   length (inline_pass True (inline python_like) note_line) < length note_line \<and>
   (\<exists>n. n \<le> length note_line + 1 \<and>
      inline_while True (inline python_like) [] note_line =
        (inline_pass True (inline python_like) ^^ n) note_line) \<and>
   inline_pass True (inline python_like) (inline_while True (inline python_like) [] note_line) =
     inline_while True (inline python_like) [] note_line \<and>
   inline_while True (inline python_like) [] note_line = S ''x = 1''"
proof -
  have "inline_pass True (inline python_like) note_line \<noteq> note_line"
    by (simp add: note_line_pass) (simp add: note_line_def eval_strings)
  then show ?thesis
    using C7_inline_loop_terminates [of True "inline python_like" note_line]
    by (simp add: note_line_while)
qed

section \<open>The clean-up of blank lines\<close>

text \<open>No two empty lines next to each other.\<close>

fun no_double_blank :: "pystr list \<Rightarrow> bool" where
  "no_double_blank (a # b # ls) = (\<not> (a = [] \<and> b = []) \<and> no_double_blank (b # ls))"
| "no_double_blank [a] = True"
| "no_double_blank [] = True"

lemma no_double_blank_snoc:
  "no_double_blank (xs @ [l]) \<longleftrightarrow> no_double_blank xs \<and> (xs = [] \<or> last xs \<noteq> [] \<or> l \<noteq> [])"
  by (induction xs rule: no_double_blank.induct) auto

lemma no_double_blank_append:
  "no_double_blank (xs @ ys) \<Longrightarrow> no_double_blank xs \<and> no_double_blank ys"
proof (induction xs rule: no_double_blank.induct)
  case (1 a b ls)
  then show ?case by simp
next
  case (2 a)
  then show ?case by (cases ys) simp_all
next
  case 3
  then show ?case by simp
qed

lemma collapse_loop_no_double_blank:
  "no_double_blank acc \<Longrightarrow> no_double_blank (collapse_loop acc ls)"
  by (induction ls arbitrary: acc) (simp_all add: no_double_blank_snoc)

lemma collapse_loop_set: "x \<in> set (collapse_loop acc ls) \<Longrightarrow> x \<in> set acc \<or> x \<in> set ls"
proof (induction ls arbitrary: acc)
  case Nil
  then show ?case by simp
next
  case (Cons l ls)
  show ?case
  proof (cases "l \<noteq> [] \<or> acc = [] \<or> last acc \<noteq> []")
    case True
    with Cons.prems have "x \<in> set (collapse_loop (acc @ [l]) ls)"
      by (auto split: if_splits)
    then have "x \<in> set (acc @ [l]) \<or> x \<in> set ls" by (rule Cons.IH)
    then show ?thesis by auto
  next
    case False
    with Cons.prems have "x \<in> set (collapse_loop acc ls)" by simp
    then have "x \<in> set acc \<or> x \<in> set ls" by (rule Cons.IH)
    then show ?thesis by auto
  qed
qed

lemma pop_leading_dropWhile: "pop_leading ls = dropWhile (\<lambda>l. l = []) ls"
  by (induction ls) simp_all

lemma pop_leading_suffix: "\<exists>zs. ls = zs @ pop_leading ls"
  unfolding pop_leading_dropWhile
  by (rule exI [of _ "takeWhile (\<lambda>l. l = []) ls"]) simp

lemma pop_leading_hd: "pop_leading ls \<noteq> [] \<Longrightarrow> hd (pop_leading ls) \<noteq> []"
  unfolding pop_leading_dropWhile using hd_dropWhile [of "\<lambda>l. l = []" ls] by simp

lemma pop_leading_all_blank: "\<forall>l\<in>set ls. l = [] \<Longrightarrow> pop_leading ls = []"
  by (induction ls) auto

lemma pop_leading_id: "ls = [] \<or> hd ls \<noteq> [] \<Longrightarrow> pop_leading ls = ls"
  by (cases ls) auto

lemma pop_trailing_step:
  "length ls > 1 \<Longrightarrow> last ls = [] \<Longrightarrow> pop_trailing ls = pop_trailing (butlast ls)"
  by (simp add: pop_trailing.simps [of ls])

lemma pop_trailing_stop:
  "\<not> (length ls > 1 \<and> last ls = []) \<Longrightarrow> pop_trailing ls = ls"
  by (subst pop_trailing.simps) auto

lemma pop_trailing_Nil [simp]: "pop_trailing [] = []"
  by (simp add: pop_trailing_stop)

lemma pop_trailing_prefix: "\<exists>zs. ls = pop_trailing ls @ zs"
proof (induction ls rule: pop_trailing.induct)
  case (1 ls)
  show ?case
  proof (cases "length ls > 1 \<and> last ls = []")
    case True
    with "1.IH" obtain zs where zs: "butlast ls = pop_trailing (butlast ls) @ zs" by blast
    from True have "ls \<noteq> []" by auto
    then have "ls = butlast ls @ [last ls]" by simp
    with zs have "ls = pop_trailing (butlast ls) @ (zs @ [last ls])"
      by (simp only: append_assoc [symmetric])
    with True show ?thesis by (auto simp: pop_trailing_step)
  next
    case False
    then show ?thesis by (simp add: pop_trailing_stop)
  qed
qed

lemma pop_trailing_nonempty: "ls \<noteq> [] \<Longrightarrow> pop_trailing ls \<noteq> []"
proof (induction ls rule: pop_trailing.induct)
  case (1 ls)
  show ?case
  proof (cases "length ls > 1 \<and> last ls = []")
    case True
    then have "butlast ls \<noteq> []" by (cases ls) auto
    with True "1.IH" show ?thesis by (simp add: pop_trailing_step)
  next
    case False
    with "1.prems" show ?thesis by (simp add: pop_trailing_stop)
  qed
qed

lemma pop_trailing_hd: "hd (pop_trailing ls) = hd ls"
proof (cases "ls = []")
  case True
  then show ?thesis by simp
next
  case False
  obtain zs where zs: "ls = pop_trailing ls @ zs" using pop_trailing_prefix by blast
  from False have "pop_trailing ls \<noteq> []" by (rule pop_trailing_nonempty)
  then have "hd (pop_trailing ls @ zs) = hd (pop_trailing ls)" by simp
  with zs show ?thesis by simp
qed

lemma pop_trailing_last:
  "ls \<noteq> [] \<Longrightarrow> hd ls \<noteq> [] \<Longrightarrow> last (pop_trailing ls) \<noteq> []"
proof (induction ls rule: pop_trailing.induct)
  case (1 ls)
  show ?case
  proof (cases "length ls > 1 \<and> last ls = []")
    case True
    then have "butlast ls \<noteq> []" and "hd (butlast ls) = hd ls" by (cases ls; auto)+
    with True "1.IH" "1.prems" show ?thesis by (simp add: pop_trailing_step)
  next
    case False
    from "1.prems" have "length ls \<le> 1 \<Longrightarrow> last ls \<noteq> []"
      by (cases ls) auto
    with False have "last ls \<noteq> []" by auto
    with False show ?thesis by (simp add: pop_trailing_stop)
  qed
qed

lemma pop_trailing_id: "ls = [] \<or> last ls \<noteq> [] \<Longrightarrow> pop_trailing ls = ls"
  by (rule pop_trailing_stop) auto

text \<open>The guards of the clean-up are covered by the loops themselves.\<close>

lemma blank_stage_eq:
  "blank_stage result_lines =
   pop_trailing (pop_leading (collapse_loop []
     (map (\<lambda>line. if strip line \<noteq> [] then line else []) result_lines)))"
proof -
  define m where "m = map (\<lambda>line. if strip line \<noteq> [] then line else []) result_lines"
  define c where "c = collapse_loop [] m"
  define p where "p = pop_leading c"
  have "(if m \<noteq> [] then (if c \<noteq> [] then (if p \<noteq> [] then pop_trailing p else p) else c)
      else []) = pop_trailing p"
  proof (cases "m = []")
    case True
    then show ?thesis by (simp add: c_def p_def)
  next
    case False
    then show ?thesis by (cases "c = []"; cases "p = []") (simp_all add: p_def)
  qed
  then show ?thesis
    unfolding blank_stage_def Let_def m_def c_def p_def .
qed

lemma blank_stage_no_double_blank: "no_double_blank (blank_stage ls)"
proof -
  let ?c = "collapse_loop [] (map (\<lambda>line. if strip line \<noteq> [] then line else []) ls)"
  have "no_double_blank ?c" by (simp add: collapse_loop_no_double_blank)
  moreover obtain zs where "?c = zs @ pop_leading ?c" using pop_leading_suffix by blast
  ultimately have "no_double_blank (pop_leading ?c)"
    using no_double_blank_append [of zs "pop_leading ?c"] by simp
  moreover obtain ys where "pop_leading ?c = pop_trailing (pop_leading ?c) @ ys"
    using pop_trailing_prefix by blast
  ultimately have "no_double_blank (pop_trailing (pop_leading ?c))"
    using no_double_blank_append [of "pop_trailing (pop_leading ?c)" ys] by simp
  then show ?thesis by (simp add: blank_stage_eq)
qed

lemma blank_stage_ends:
  "blank_stage ls \<noteq> [] \<Longrightarrow> hd (blank_stage ls) \<noteq> [] \<and> last (blank_stage ls) \<noteq> []"
proof -
  let ?p = "pop_leading (collapse_loop []
      (map (\<lambda>line. if strip line \<noteq> [] then line else []) ls))"
  assume "blank_stage ls \<noteq> []"
  then have ne: "?p \<noteq> []" by (auto simp: blank_stage_eq)
  then have "hd ?p \<noteq> []" by (rule pop_leading_hd)
  with ne show ?thesis
    by (simp add: blank_stage_eq pop_trailing_hd pop_trailing_last)
qed

lemma blank_stage_set:
  assumes "l \<in> set (blank_stage ls)"
  shows "l = [] \<or> (l \<in> set ls \<and> strip l \<noteq> [])"
proof -
  let ?m = "map (\<lambda>line. if strip line \<noteq> [] then line else []) ls"
  let ?c = "collapse_loop [] ?m"
  obtain ys where ys: "pop_leading ?c = pop_trailing (pop_leading ?c) @ ys"
    using pop_trailing_prefix by blast
  from assms have "l \<in> set (pop_trailing (pop_leading ?c))" by (simp add: blank_stage_eq)
  then have "l \<in> set (pop_trailing (pop_leading ?c) @ ys)" by simp
  with ys have "l \<in> set (pop_leading ?c)" by simp
  then have "l \<in> set ?c" unfolding pop_leading_dropWhile by (rule set_dropWhileD)
  then have "l \<in> set ?m" using collapse_loop_set [of l "[]" ?m] by simp
  then show ?thesis by (auto split: if_splits)
qed

lemma blank_stage_all_blank:
  assumes "\<forall>l\<in>set ls. strip l = []"
  shows "blank_stage ls = []"
proof -
  define m where "m = map (\<lambda>line. if strip line \<noteq> [] then line else []) ls"
  have m: "l = []" if "l \<in> set m" for l
    using that assms by (auto simp: m_def)
  have "l = []" if "l \<in> set (collapse_loop [] m)" for l
  proof -
    from that have "l \<in> set [] \<or> l \<in> set m" by (rule collapse_loop_set)
    then show ?thesis using m by simp
  qed
  then have "pop_leading (collapse_loop [] m) = []"
    by (intro pop_leading_all_blank) blast
  then show ?thesis by (simp add: blank_stage_eq m_def)
qed

section \<open>The result under \<open>remove_all\<close>\<close>

text \<open>The block pass only leaves characters out.\<close>

lemma re_sub_subseq: "subseq (re_sub p adv pos s) s"
proof (induction p adv pos s rule: re_sub.induct)
  case (1 p adv pos s)
  show ?case
  proof (cases "rmatch True (\<lambda>e r. \<not> (adv \<and> e = pos)) p 0 pos s")
    case None
    show ?thesis
    proof (cases s)
      case Nil
      with None show ?thesis by (subst re_sub.simps) simp
    next
      case (Cons x xs)
      have "subseq (re_sub p False (Suc pos) xs) xs"
        using None Cons by (rule "1.IH"(1))
      with None Cons show ?thesis by (subst re_sub.simps) simp
    qed
  next
    case (Some ke)
    obtain k e where ke: "(k, e) = ke" by (cases ke) simp
    show ?thesis
    proof (cases "e = pos")
      case True
      have "subseq (re_sub p True pos s) s"
        using Some ke True by (rule "1.IH"(2))
      with Some ke True show ?thesis by (subst re_sub.simps) auto
    next
      case False
      have "subseq (re_sub p False e (drop (e - pos) s)) (drop (e - pos) s)"
        using Some ke False by (rule "1.IH"(3))
      moreover have "subseq (drop (e - pos) s) s"
        by (rule suffix_imp_subseq) (rule suffix_drop)
      ultimately have "subseq (re_sub p False e (drop (e - pos) s)) s"
        by (rule subseq_order.trans)
      with Some ke False show ?thesis by (subst re_sub.simps) auto
    qed
  qed
qed

lemma block_stage_subseq: "subseq (block_stage ld remove_all content) content"
  by (simp add: block_stage_def re_sub_subseq split: option.split)

lemma block_stage_Nil [simp]: "block_stage ld remove_all [] = []"
  using block_stage_subseq [of ld remove_all "[]"] by simp

lemma join_nl_last: "ls \<noteq> [] \<Longrightarrow> last ls \<noteq> [] \<Longrightarrow> last (join_nl ls) = last (last ls)"
  by (induction ls rule: join_nl.induct) (auto simp: join_nl_eq_Nil)

text \<open>The lines that \<open>remove_all\<close> leaves, before they are joined.\<close>

definition cleaned_lines :: "lang_def \<Rightarrow> pystr \<Rightarrow> pystr list" where
  "cleaned_lines ld content =
     blank_stage (map (process_line ld True) (split_nl (block_stage ld True content)))"

lemma remove_comments_all:
  "remove_comments_universal content ld True = newline_stage content (cleaned_lines ld content)"
  by (simp add: remove_comments_universal_def cleaned_lines_def Let_def)

lemma cleaned_lines_no_nl: "l \<in> set (cleaned_lines ld content) \<Longrightarrow> NL \<notin> set l"
proof -
  assume "l \<in> set (cleaned_lines ld content)"
  then have "l = [] \<or> l \<in> set (map (process_line ld True) (split_nl (block_stage ld True content)))"
    unfolding cleaned_lines_def by (blast dest: blank_stage_set)
  then show ?thesis
    using process_lines_no_nl [of l ld True "block_stage ld True content"] by auto
qed

lemma newline_stage_Nil: "newline_stage content [] = (if endswith_nl content then [NL] else [])"
  by (auto simp: newline_stage_def Let_def endswith_nl_def)

lemma newline_stage_cleaned:
  assumes "R \<noteq> []" and "hd R \<noteq> []" and "last R \<noteq> []" and "NL \<notin> set (last R)"
  shows "newline_stage content R =
    (if endswith_nl content then join_nl R @ [NL] else join_nl R)"
proof -
  from assms(1,2) have ne: "join_nl R \<noteq> []"
    by (cases R) (auto simp: join_nl_eq_Nil)
  have "last (join_nl R) = last (last R)"
    using assms(1,3) by (rule join_nl_last)
  with assms(3,4) have "last (join_nl R) \<noteq> NL"
    by (metis last_in_set)
  then have "\<not> endswith_nl (join_nl R)" by (simp add: endswith_nl_def)
  with ne assms(1) show ?thesis by (simp add: newline_stage_def Let_def)
qed

lemma remove_comments_all_cases:
  "remove_comments_universal content ld True =
     (if cleaned_lines ld content = [] then (if endswith_nl content then [NL] else [])
      else if endswith_nl content then join_nl (cleaned_lines ld content) @ [NL]
      else join_nl (cleaned_lines ld content))"
proof (cases "cleaned_lines ld content = []")
  case True
  then show ?thesis by (simp add: remove_comments_all newline_stage_Nil)
next
  case False
  then have ends: "hd (cleaned_lines ld content) \<noteq> []" "last (cleaned_lines ld content) \<noteq> []"
    unfolding cleaned_lines_def by (simp_all add: blank_stage_ends)
  have "NL \<notin> set (last (cleaned_lines ld content))"
    using False cleaned_lines_no_nl [of "last (cleaned_lines ld content)" ld content] by simp
  with False ends show ?thesis
    by (simp add: remove_comments_all newline_stage_cleaned)
qed

section \<open>The final newline\<close>

lemma process_line_Nil [simp]: "process_line ld remove_all [] = []"
  using process_line_prefix [of ld remove_all "[]"] by simp

lemma strip_Nil [simp]: "strip [] = []"
  by (simp add: strip_def lstrip_def rstrip_def)

lemma cleaned_lines_all_blank:
  "\<forall>l\<in>set (split_nl (block_stage ld True content)). strip (process_line ld True l) = [] \<Longrightarrow>
   cleaned_lines ld content = []"
  unfolding cleaned_lines_def by (rule blank_stage_all_blank) simp

lemma cleaned_lines_Nil [simp]: "cleaned_lines ld [] = []"
  by (rule cleaned_lines_all_blank) simp

lemma subseq_single: "subseq xs [a] \<Longrightarrow> xs = [] \<or> xs = [a]"
  by (cases xs) (auto split: if_splits)

lemma cleaned_lines_single_nl [simp]: "cleaned_lines ld [NL] = []"
proof (rule cleaned_lines_all_blank)
  have "block_stage ld True [NL] = [] \<or> block_stage ld True [NL] = [NL]"
    using block_stage_subseq [of ld True "[NL]"] by (rule subseq_single)
  then show "\<forall>l\<in>set (split_nl (block_stage ld True [NL])). strip (process_line ld True l) = []"
    by auto
qed

lemma cleaned_join_not_endswith:
  assumes "cleaned_lines ld content \<noteq> []"
  shows "join_nl (cleaned_lines ld content) \<noteq> [] \<and> \<not> endswith_nl (join_nl (cleaned_lines ld content))"
proof -
  let ?R = "cleaned_lines ld content"
  from assms have ends: "hd ?R \<noteq> []" "last ?R \<noteq> []"
    unfolding cleaned_lines_def by (simp_all add: blank_stage_ends)
  from assms ends(1) have ne: "join_nl ?R \<noteq> []"
    by (cases ?R) (auto simp: join_nl_eq_Nil)
  have "NL \<notin> set (last ?R)"
    using assms cleaned_lines_no_nl [of "last ?R" ld content] by simp
  moreover have "last (join_nl ?R) = last (last ?R)"
    using assms ends(2) by (rule join_nl_last)
  moreover have "last (last ?R) \<in> set (last ?R)"
    using ends(2) by (rule last_in_set)
  ultimately have "last (join_nl ?R) \<noteq> NL"
    by metis
  with ne show ?thesis by (simp add: endswith_nl_def)
qed

lemma endswith_remove_comments:
  "endswith_nl (remove_comments_universal content ld remove_all) = endswith_nl content"
proof (cases remove_all)
  case True
  show ?thesis
  proof (cases "cleaned_lines ld content = []")
    case True
    with \<open>remove_all\<close> show ?thesis
      by (simp add: remove_comments_all_cases endswith_nl_def)
  next
    case False
    then have "\<not> endswith_nl (join_nl (cleaned_lines ld content))"
      using cleaned_join_not_endswith by blast
    with False \<open>remove_all\<close> show ?thesis
      by (simp add: remove_comments_all_cases) (simp add: endswith_nl_def)
  qed
next
  case False
  have len: "length (split_nl (remove_comments_universal content ld False)) =
      length (split_nl content)"
    by (simp add: split_remove_comments_inline)
  have "last (split_nl (remove_comments_universal content ld False)) = [] \<longleftrightarrow>
      last (split_nl content) = []"
    by (simp add: split_remove_comments_inline last_map process_line_False_Nil)
  with len have "endswith_nl (remove_comments_universal content ld False) =
      endswith_nl content"
    by (simp only: endswith_nl_split)
  with False show ?thesis by simp
qed

lemma remove_comments_Nil [simp]: "remove_comments_universal [] ld remove_all = []"
  by (cases remove_all)
    (simp_all add: remove_comments_all_cases remove_comments_inline endswith_nl_def)

lemma remove_comments_single_nl [simp]: "remove_comments_universal [NL] ld remove_all = [NL]"
  by (cases remove_all)
    (simp_all add: remove_comments_all_cases remove_comments_inline endswith_nl_def)

text \<open>
  C2. For every content, every extension and both modes, the output ends with a newline
  exactly when the input does; the empty string is mapped to itself and so is the single
  newline.
\<close>

theorem C2_newline_fidelity:
  "endswith_nl (process_code_content lower content file_extension remove_all) =
     endswith_nl content \<and>
   process_code_content lower [] file_extension remove_all = [] \<and>
   process_code_content lower [NL] file_extension remove_all = [NL]"
  by (simp add: process_code_content_def endswith_remove_comments split: option.split)

section \<open>Blank lines in the output of \<open>remove_all\<close>\<close>

text \<open>
  The lines of a text: the pieces between the newlines, where a newline at the very end
  ends the last line and opens no further one. The empty text has no line; the single
  newline is one empty line.
\<close>

definition text_lines :: "pystr \<Rightarrow> pystr list" where
  "text_lines s =
     (if s = [] then [] else if endswith_nl s then split_nl (butlast s) else split_nl s)"

text \<open>
  The bound on blank lines: exactly one empty line, or no two empty lines in a row and
  no empty line first or last.
\<close>

definition blank_bounded :: "pystr list \<Rightarrow> bool" where
  "blank_bounded ls \<longleftrightarrow>
     ls = [[]] \<or> (no_double_blank ls \<and> (ls = [] \<or> (hd ls \<noteq> [] \<and> last ls \<noteq> [])))"

lemma text_lines_remove_comments_all:
  "text_lines (remove_comments_universal content ld True) =
     (if cleaned_lines ld content = [] then (if endswith_nl content then [[]] else [])
      else cleaned_lines ld content)"
proof (cases "cleaned_lines ld content = []")
  case True
  then show ?thesis
    by (simp add: remove_comments_all_cases text_lines_def endswith_nl_def)
next
  case False
  let ?R = "cleaned_lines ld content"
  have j: "join_nl ?R \<noteq> []" "\<not> endswith_nl (join_nl ?R)"
    using False cleaned_join_not_endswith by blast+
  have "\<forall>l\<in>set ?R. NL \<notin> set l" using cleaned_lines_no_nl by blast
  with False have s: "split_nl (join_nl ?R) = ?R" by (rule split_join_nl)
  show ?thesis
  proof (cases "endswith_nl content")
    case True
    have "endswith_nl (join_nl ?R @ [NL])" by (simp add: endswith_nl_def)
    with True False s show ?thesis
      by (simp add: remove_comments_all_cases text_lines_def)
  next
    case no: False
    with False j s show ?thesis
      by (simp add: remove_comments_all_cases text_lines_def)
  qed
qed

lemma blank_bounded_remove_comments_all:
  "blank_bounded (text_lines (remove_comments_universal content ld True))"
proof (cases "cleaned_lines ld content = []")
  case True
  then show ?thesis
    by (simp add: text_lines_remove_comments_all blank_bounded_def)
next
  case False
  then have "hd (cleaned_lines ld content) \<noteq> [] \<and> last (cleaned_lines ld content) \<noteq> []"
    unfolding cleaned_lines_def by (rule blank_stage_ends)
  moreover have "no_double_blank (cleaned_lines ld content)"
    unfolding cleaned_lines_def by (rule blank_stage_no_double_blank)
  ultimately show ?thesis
    using False by (simp add: text_lines_remove_comments_all blank_bounded_def)
qed

text \<open>
  C4. For a mapped extension, the lines of the output of \<open>remove_all\<close> hold no two
  empty lines in a row and no empty line first or last, unless the output is exactly
  one empty line.
\<close>

theorem C4_remove_all_blank_run_bound:
  "map_of LANGUAGE_MAP (lower file_extension) = Some ld \<Longrightarrow>
   blank_bounded (text_lines (process_code_content lower content file_extension True))"
  by (simp add: process_code_content_def blank_bounded_remove_comments_all)

text \<open>The scenario of the blank run: three empty lines between two statements.\<close>

definition blank_run_input :: pystr where
  "blank_run_input = S ''x = 1'' @ [NL, NL, NL, NL] @ S ''y = 2'' @ [NL]"

lemma blank_run_lines:
  "map (process_line python_like True) (split_nl (block_stage python_like True blank_run_input)) =
   [S ''x = 1'', [], [], [], S ''y = 2'', []]"
  by (simp add: blank_run_input_def block_stage_def eval_line eval_lang eval_regex eval_strings)

lemma blank_run_cleaned:
  "cleaned_lines python_like blank_run_input = [S ''x = 1'', [], S ''y = 2'']"
  unfolding cleaned_lines_def blank_run_lines
  by (simp add: eval_stages strip_def lstrip_def rstrip_def isspace_def eval_strings)

lemma py_ext: "map_of LANGUAGE_MAP (ascii_lower (S ''.py'')) = Some python_like"
  by (simp add: eval_table eval_strings)

theorem C4_remove_all_blank_run_bound_witness:
  "map_of LANGUAGE_MAP (ascii_lower (S ''.py'')) = Some python_like \<and>
   blank_bounded (text_lines (process_code_content ascii_lower blank_run_input (S ''.py'') True)) \<and>
   text_lines (process_code_content ascii_lower blank_run_input (S ''.py'') True) =
     [S ''x = 1'', [], S ''y = 2'']"
proof -
  have "text_lines (process_code_content ascii_lower blank_run_input (S ''.py'') True) =
      [S ''x = 1'', [], S ''y = 2'']"
    by (simp add: process_code_content_def py_ext text_lines_remove_comments_all
        blank_run_cleaned)
  then show ?thesis
    using py_ext C4_remove_all_blank_run_bound
      [of ascii_lower "S ''.py''" python_like blank_run_input, OF py_ext]
    by simp
qed

section \<open>A file of nothing but comments\<close>

definition only_comment :: pystr where
  "only_comment = S ''# only a comment'' @ [NL]"

lemma only_comment_lines:
  "map (process_line python_like True) (split_nl (block_stage python_like True only_comment)) =
   [[], []]"
  by (simp add: only_comment_def block_stage_def eval_line eval_lang eval_regex eval_strings)

lemma blank_stage_two_blank: "blank_stage [[], []] = []"
  by (rule blank_stage_all_blank) simp

text \<open>
  C5. The clean-up is to strip the empty lines at both ends and never to take the last
  line of a result that is one line, so that a file of nothing but removed comments
  leaves exactly one empty line. The loop that pops the trailing lines keeps the last
  line; the loop that pops the leading ones does not. For the file that holds one
  comment and its newline the lines after stage 2 are two empty lines, step 2 leaves one
  of them, and the loop over the leading lines pops it: the stage leaves no line where
  one empty line is due.
\<close>

theorem C5_comment_only_file_leaves_no_line:
  "map (process_line python_like True) (split_nl (block_stage python_like True only_comment)) =
     [[], []] \<and>
   collapse_loop [] [[], []] = [[]] \<and>
   pop_leading [[]] = [] \<and>
   pop_trailing [[]] = [[]] \<and>
   blank_stage (map (process_line python_like True)
     (split_nl (block_stage python_like True only_comment))) = [] \<and>
   blank_stage (map (process_line python_like True)
     (split_nl (block_stage python_like True only_comment))) \<noteq> [[]]"
  by (simp add: only_comment_lines blank_stage_two_blank pop_trailing_stop)

section \<open>Whole-line comments without \<open>remove_all\<close>\<close>

text \<open>Where the pattern after \<open>Mark\<close> holds no further \<open>Mark\<close>, the noted position stays.\<close>

lemma rmatch_mark_stays:
  "Mark \<notin> set p \<Longrightarrow> rmatch d acc p m pos s = Some (k, e) \<Longrightarrow> k = m"
  by (induction d acc p m pos s rule: rmatch.induct)
     (auto split: if_splits option.splits)

lemma rmatch_star_mark:
  "Mark \<notin> set q \<Longrightarrow> rmatch d acc (Star c # Mark # q) m pos s = Some (k, e) \<Longrightarrow>
   pos \<le> k \<and> (\<forall>x\<in>set (take (k - pos) s). cmatch d c x)"
proof (induction s arbitrary: pos)
  case Nil
  then have "k = pos" using rmatch_mark_stays [of q d acc pos pos "[]" k e] by simp
  then show ?case by simp
next
  case (Cons x xs)
  show ?case
  proof (cases "cmatch d c x \<and> rmatch d acc (Star c # Mark # q) m (Suc pos) xs \<noteq> None")
    case True
    with Cons.prems have "rmatch d acc (Star c # Mark # q) m (Suc pos) xs = Some (k, e)"
      by (auto split: option.splits)
    with Cons.IH [of "Suc pos"] Cons.prems(1)
    have "Suc pos \<le> k \<and> (\<forall>x\<in>set (take (k - Suc pos) xs). cmatch d c x)" by simp
    moreover from this have "k - pos = Suc (k - Suc pos)" by arith
    then have "take (k - pos) (x # xs) = x # take (k - Suc pos) xs" by simp
    ultimately show ?thesis using True by auto
  next
    case False
    with Cons.prems have "rmatch d acc q pos pos (x # xs) = Some (k, e)"
      by (auto split: option.splits if_splits)
    then have "k = pos" using rmatch_mark_stays [of q d acc pos pos "x # xs" k e] Cons.prems(1)
      by simp
    then show ?thesis by simp
  qed
qed

text \<open>
  The code part of every inline pattern of the table is \<open>^[^...]*\<close>: group 1 holds none of
  the excluded characters.
\<close>

definition code_excludes :: "cp \<Rightarrow> inline_pattern \<Rightarrow> bool" where
  "code_excludes a ip \<longleftrightarrow>
     (\<exists>excl. fst ip = [Bol, Star (NotIn excl)] \<and> a \<in> set excl) \<and> Mark \<notin> set (snd ip)"

lemma code_excludes_group:
  assumes "code_excludes a ip" and "re_match (inline_regex ip) line = Some (k, e)"
  shows "a \<notin> set (take k line)"
proof -
  from assms(1) obtain excl where ip: "fst ip = [Bol, Star (NotIn excl)]" "a \<in> set excl"
    "Mark \<notin> set (snd ip)"
    by (auto simp: code_excludes_def)
  from assms(2) ip(1) have "rmatch False (\<lambda>e r. True) (Star (NotIn excl) # Mark # snd ip) 0 0 line =
      Some (k, e)"
    by (simp add: re_match_def inline_regex_def)
  with ip(3) have "\<forall>x\<in>set (take (k - 0) line). cmatch False (NotIn excl) x"
    using rmatch_star_mark [of "snd ip" False _ "NotIn excl" 0 0 line k e] by blast
  with ip(2) show ?thesis by auto
qed

text \<open>Every full-line pattern of the table is \<open>^\s*\<close>, then the first character of a marker.\<close>

definition starts_with :: "cp \<Rightarrow> regex \<Rightarrow> bool" where
  "starts_with a fl \<longleftrightarrow> (\<exists>q. fl = Bol # Star Space # One (Lit a) # q)"

lemma rmatch_space_lit:
  "rmatch d acc (Star Space # One (Lit a) # q) m pos s = Some r \<Longrightarrow>
   \<exists>ws rest. s = ws @ a # rest \<and> (\<forall>x\<in>set ws. isspace x)"
proof (induction s arbitrary: pos r)
  case Nil
  then show ?case by simp
next
  case (Cons x xs)
  show ?case
  proof (cases "cmatch d Space x \<and> rmatch d acc (Star Space # One (Lit a) # q) m (Suc pos) xs \<noteq> None")
    case True
    then obtain r' where "rmatch d acc (Star Space # One (Lit a) # q) m (Suc pos) xs = Some r'"
      by auto
    then obtain ws rest where "xs = ws @ a # rest" "\<forall>x\<in>set ws. isspace x"
      using Cons.IH by blast
    with True have "x # xs = (x # ws) @ a # rest \<and> (\<forall>y\<in>set (x # ws). isspace y)"
      by simp
    then show ?thesis by blast
  next
    case False
    with Cons.prems have "rmatch d acc (One (Lit a) # q) m pos (x # xs) = Some r"
      by (auto split: option.splits if_splits)
    then have "x = a" by (simp split: if_splits)
    then have "x # xs = [] @ a # xs \<and> (\<forall>y\<in>set []. isspace y)" by simp
    then show ?thesis by blast
  qed
qed

lemma all_space_strip:
  assumes "\<forall>x\<in>set s. isspace x"
  shows "strip s = []"
proof -
  from assms have "dropWhile isspace (rev s) = []" by (simp add: dropWhile_eq_Nil_conv)
  then have "rstrip s = []" by (simp only: rstrip_def rev.simps)
  then show ?thesis by (simp only: strip_def lstrip_def dropWhile.simps)
qed

lemma strip_first:
  assumes "strip line = ws @ a # rest" and "\<forall>x\<in>set ws. isspace x" and "\<not> isspace a"
  shows "\<exists>w r. line = w @ a # r \<and> (\<forall>x\<in>set w. isspace x)"
proof -
  have ws: "ws = []"
  proof (cases ws)
    case Nil
    then show ?thesis .
  next
    case (Cons y ys)
    with assms(2) have "isspace y" by simp
    moreover from assms(1) Cons have "hd (dropWhile isspace (rstrip line)) = y"
      by (simp add: strip_def lstrip_def)
    moreover from assms(1) Cons have "dropWhile isspace (rstrip line) \<noteq> []"
      by (simp add: strip_def lstrip_def)
    ultimately show ?thesis using hd_dropWhile [of isspace "rstrip line"] by simp
  qed
  define tw where "tw = takeWhile isspace (rstrip line)"
  have "rstrip line = takeWhile isspace (rstrip line) @ dropWhile isspace (rstrip line)"
    by simp
  with assms(1) ws have r: "rstrip line = tw @ a # rest"
    by (simp add: strip_def lstrip_def tw_def)
  obtain zs where zs: "line = rstrip line @ zs"
    using rstrip_prefix [of line] by (auto simp: prefix_def)
  have "rstrip line @ zs = tw @ a # (rest @ zs)" by (simp add: r)
  with zs have "line = tw @ a # (rest @ zs)" by (rule trans)
  moreover have "\<forall>x\<in>set tw. isspace x"
    by (auto simp: tw_def dest: set_takeWhileD)
  ultimately show ?thesis by blast
qed

lemma marker_first_blank_code:
  assumes "starts_with a fl" and "re_fullmatch fl (strip line) \<noteq> None" and "\<not> isspace a"
    and "code_excludes a ip" and "re_match (inline_regex ip) line = Some (k, e)"
  shows "strip (take k line) = []"
proof -
  from assms(1) obtain q where "fl = Bol # Star Space # One (Lit a) # q"
    by (auto simp: starts_with_def)
  with assms(2) obtain r where
    "rmatch False (\<lambda>e r. r = []) (Star Space # One (Lit a) # q) 0 0 (strip line) = Some r"
    by (auto simp: re_fullmatch_def)
  then obtain ws rest where "strip line = ws @ a # rest" "\<forall>x\<in>set ws. isspace x"
    using rmatch_space_lit by blast
  then obtain w r' where line: "line = w @ a # r'" and w: "\<forall>x\<in>set w. isspace x"
    using assms(3) strip_first by blast
  have "a \<notin> set (take k line)" using assms(4,5) by (rule code_excludes_group)
  with line have "k \<le> length w"
    by (cases "k \<le> length w") (auto simp: take_Cons' split: if_splits)
  with line have "take k line = take k w" by simp
  with w have "\<forall>x\<in>set (take k line). isspace x" by (auto dest: in_set_takeD)
  then show ?thesis by (rule all_space_strip)
qed

lemma inline_pass_False_unchanged:
  "\<forall>ip\<in>set ips. \<forall>k e. re_match (inline_regex ip) line = Some (k, e) \<longrightarrow> strip (take k line) = [] \<Longrightarrow>
   inline_pass False ips line = line"
  by (induction ips) (auto simp: Let_def split: option.splits)

text \<open>
  In every language definition of the table, each full-line pattern starts with a
  character that the code part of every inline pattern excludes.
\<close>

definition markers_ok :: "lang_def \<Rightarrow> bool" where
  "markers_ok ld \<longleftrightarrow>
     (\<forall>fl\<in>set (full_line ld). \<exists>a. \<not> isspace a \<and> starts_with a fl \<and>
        (\<forall>ip\<in>set (inline ld). code_excludes a ip))"

lemmas marker_defs =
  markers_ok_def starts_with_def code_excludes_def eval_lang inline_hash_def inline_slashes_def
  inline_block_def inline_xml_def full_hash_def full_slashes_def full_block_def full_xml_def

lemma not_space_markers:
  "\<not> isspace (ord CHR ''#'')" "\<not> isspace (ord CHR ''/'')" "\<not> isspace (ord CHR ''<'')"
  by (simp_all add: isspace_def ord_def)

lemma markers_python_like: "markers_ok python_like"
  unfolding marker_defs using not_space_markers by (simp add: ord_def)

lemma markers_c_like: "markers_ok c_like"
  unfolding marker_defs using not_space_markers by (simp add: ord_def)

lemma markers_c_like_line_only: "markers_ok c_like_line_only"
  unfolding marker_defs using not_space_markers by (simp add: ord_def)

lemma markers_xml_like: "markers_ok xml_like"
  unfolding marker_defs using not_space_markers by (simp add: ord_def)

lemma markers_css_like: "markers_ok css_like"
  unfolding marker_defs using not_space_markers by (simp add: ord_def)

lemma markers_php_like: "markers_ok php_like"
  unfolding marker_defs using not_space_markers by (simp add: ord_def)

lemma language_map_values:
  "map_of LANGUAGE_MAP e = Some ld \<Longrightarrow>
   ld = python_like \<or> ld = c_like \<or> ld = c_like_line_only \<or> ld = xml_like \<or>
   ld = css_like \<or> ld = php_like"
  by (drule map_of_SomeD) (auto simp: LANGUAGE_MAP_def)

lemma language_map_markers: "map_of LANGUAGE_MAP e = Some ld \<Longrightarrow> markers_ok ld"
  using markers_python_like markers_c_like markers_c_like_line_only markers_xml_like
    markers_css_like markers_php_like
  by (auto dest!: language_map_values)

lemma full_line_comment_unchanged:
  assumes "markers_ok ld" and "is_full_line_comment_type ld line"
  shows "process_line ld False line = line"
proof -
  from assms(2) obtain fl where fl: "fl \<in> set (full_line ld)" "re_fullmatch fl (strip line) \<noteq> None"
    by (auto simp: is_full_line_comment_type_def list_ex_iff)
  with assms(1) obtain a where a: "\<not> isspace a" "starts_with a fl"
    "\<forall>ip\<in>set (inline ld). code_excludes a ip"
    unfolding markers_ok_def by blast
  have "\<forall>ip\<in>set (inline ld). \<forall>k e. re_match (inline_regex ip) line = Some (k, e) \<longrightarrow>
      strip (take k line) = []"
    using a fl(2) marker_first_blank_code [of a fl line] by blast
  then have "inline_pass False (inline ld) line = line"
    by (rule inline_pass_False_unchanged)
  then show ?thesis by (simp add: process_line_def inline_while_of_fixed)
qed

definition hash_only_file :: pystr where
  "hash_only_file = S ''x = 1  # note'' @ [NL] @ S ''  # only a comment'' @ [NL]"

lemma hash_only_file_split:
  "split_nl hash_only_file = [S ''x = 1  # note'', S ''  # only a comment'', []]"
  by (simp add: hash_only_file_def eval_strings)

lemma hash_only_line_full:
  "is_full_line_comment_type python_like (S ''  # only a comment'')"
  by (simp add: is_full_line_comment_type_def python_like_def eval_regex eval_strings
      strip_def lstrip_def rstrip_def isspace_def)

text \<open>
  C3. Without \<open>remove_all\<close>, for every mapped extension, a line whose stripped text one
  of the full-line patterns of its language matches is left as it is: by the loop over
  the inline patterns, and so in the output, where it stands at the same place.
\<close>

theorem C3_inline_only_keeps_comment_lines:
  "map_of LANGUAGE_MAP (lower file_extension) = Some ld \<Longrightarrow>
   (is_full_line_comment_type ld line \<longrightarrow> process_line ld False line = line) \<and>
   (i < length (split_nl content) \<and> is_full_line_comment_type ld (split_nl content ! i) \<longrightarrow>
      split_nl (process_code_content lower content file_extension False) ! i =
        split_nl content ! i)"
proof -
  assume m: "map_of LANGUAGE_MAP (lower file_extension) = Some ld"
  then have ok: "markers_ok ld" by (rule language_map_markers)
  have "split_nl (process_code_content lower content file_extension False) =
      map (process_line ld False) (split_nl content)"
    using m by (simp add: process_code_content_def split_remove_comments_inline)
  then show ?thesis
    using ok full_line_comment_unchanged by simp
qed

theorem C3_inline_only_keeps_comment_lines_witness:
  "map_of LANGUAGE_MAP (ascii_lower (S ''.py'')) = Some python_like \<and>
   is_full_line_comment_type python_like (S ''  # only a comment'') \<and>
   process_line python_like False (S ''  # only a comment'') = S ''  # only a comment'' \<and>
   split_nl hash_only_file ! 1 = S ''  # only a comment'' \<and>
   split_nl (process_code_content ascii_lower hash_only_file (S ''.py'') False) ! 1 =
     S ''  # only a comment''"
proof -
  have i: "(1::nat) < length (split_nl hash_only_file)"
    and l: "split_nl hash_only_file ! 1 = S ''  # only a comment''"
    by (simp_all add: hash_only_file_split)
  show ?thesis
    using py_ext hash_only_line_full i l
      C3_inline_only_keeps_comment_lines
        [of ascii_lower "S ''.py''" python_like "S ''  # only a comment''" 1 hash_only_file,
         OF py_ext]
    by simp
qed

section \<open>Applying the transform twice\<close>

lemma process_line_False_idem:
  "process_line ld False (process_line ld False line) = process_line ld False line"
proof -
  have "inline_while False (inline ld) [] (inline_while False (inline ld) [] line) =
      inline_while False (inline ld) [] line"
    by (rule inline_while_of_fixed) (rule inline_while_fixed)
  then show ?thesis by (simp add: process_line_def)
qed

lemma remove_comments_inline_idem:
  "remove_comments_universal (remove_comments_universal content ld False) ld False =
   remove_comments_universal content ld False"
proof -
  have "remove_comments_universal (remove_comments_universal content ld False) ld False =
      join_nl (map (process_line ld False)
        (split_nl (remove_comments_universal content ld False)))"
    by (rule remove_comments_inline)
  also have "\<dots> = join_nl (map (process_line ld False) (map (process_line ld False)
      (split_nl content)))"
    by (simp only: split_remove_comments_inline)
  also have "\<dots> = join_nl (map (process_line ld False) (split_nl content))"
    by (simp add: comp_def process_line_False_idem)
  also have "\<dots> = remove_comments_universal content ld False"
    by (rule remove_comments_inline [symmetric])
  finally show ?thesis .
qed

text \<open>The clean-up leaves a list alone that it has cleaned, also with one empty line added.\<close>

lemma collapse_loop_id: "no_double_blank (acc @ ls) \<Longrightarrow> collapse_loop acc ls = acc @ ls"
proof (induction ls arbitrary: acc)
  case Nil
  show ?case by simp
next
  case (Cons l ls)
  from Cons.prems have ndb: "no_double_blank ((acc @ [l]) @ ls)" by simp
  then have "no_double_blank (acc @ [l])"
    using no_double_blank_append [of "acc @ [l]" ls] by simp
  then have "l \<noteq> [] \<or> acc = [] \<or> last acc \<noteq> []"
    by (auto simp: no_double_blank_snoc)
  then have "collapse_loop acc (l # ls) = collapse_loop (acc @ [l]) ls" by auto
  also have "\<dots> = (acc @ [l]) @ ls" using ndb by (rule Cons.IH)
  finally show ?case by simp
qed

lemma blank_stage_id:
  assumes "no_double_blank R" and "R = [] \<or> (hd R \<noteq> [] \<and> last R \<noteq> [])"
    and "\<forall>r\<in>set R. r = [] \<or> strip r \<noteq> []"
  shows "blank_stage R = R"
proof -
  have m: "map (\<lambda>line. if strip line \<noteq> [] then line else []) R = R"
    using assms(3) by (induction R) auto
  have "collapse_loop [] R = R" using assms(1) collapse_loop_id [of "[]" R] by simp
  moreover have "pop_leading R = R" using assms(2) by (intro pop_leading_id) auto
  moreover have "pop_trailing R = R" using assms(2) by (intro pop_trailing_id) auto
  ultimately show ?thesis unfolding blank_stage_eq m by (simp only:)
qed

lemma blank_stage_id_snoc:
  assumes "no_double_blank R" and "R \<noteq> []" and "hd R \<noteq> []" and "last R \<noteq> []"
    and "\<forall>r\<in>set R. r = [] \<or> strip r \<noteq> []"
  shows "blank_stage (R @ [[]]) = R"
proof -
  have m: "map (\<lambda>line. if strip line \<noteq> [] then line else []) (R @ [[]]) = R @ [[]]"
    using assms(5) by (induction R) auto
  have "no_double_blank (R @ [[]])"
    using assms(1,4) by (simp add: no_double_blank_snoc)
  then have "collapse_loop [] (R @ [[]]) = R @ [[]]"
    using collapse_loop_id [of "[]" "R @ [[]]"] by simp
  moreover have "pop_leading (R @ [[]]) = R @ [[]]"
    using assms(2,3) by (intro pop_leading_id) simp
  moreover have "pop_trailing (R @ [[]]) = pop_trailing R"
    using assms(2) by (simp add: pop_trailing_step)
  moreover have "pop_trailing R = R" using assms(4) by (intro pop_trailing_id) simp
  ultimately show ?thesis unfolding blank_stage_eq m by (simp only:)
qed

lemma cleaned_lines_line:
  assumes "r \<in> set (cleaned_lines ld content)" and "r \<noteq> []"
  shows "\<exists>l\<in>set (split_nl (block_stage ld True content)).
    \<not> is_full_line_comment_type ld l \<and> r = inline_while True (inline ld) [] l \<and> strip r \<noteq> []"
proof -
  from assms have "r \<in> set (map (process_line ld True) (split_nl (block_stage ld True content)))"
    and s: "strip r \<noteq> []"
    unfolding cleaned_lines_def by (auto dest: blank_stage_set)
  then obtain l where l: "l \<in> set (split_nl (block_stage ld True content))"
    "r = process_line ld True l"
    by auto
  with assms(2) have "\<not> is_full_line_comment_type ld l"
    by (auto simp: process_line_def)
  with l s show ?thesis by (auto simp: process_line_def)
qed

lemma remove_comments_all_idem:
  assumes H1: "block_stage ld True (remove_comments_universal content ld True) =
      remove_comments_universal content ld True"
    and H2: "\<forall>r\<in>set (cleaned_lines ld content). r \<noteq> [] \<longrightarrow> \<not> is_full_line_comment_type ld r"
  shows "remove_comments_universal (remove_comments_universal content ld True) ld True =
    remove_comments_universal content ld True"
proof (cases "cleaned_lines ld content = []")
  case True
  then have "remove_comments_universal content ld True =
      (if endswith_nl content then [NL] else [])"
    by (simp add: remove_comments_all_cases)
  then show ?thesis by simp
next
  case False
  define R where "R = cleaned_lines ld content"
  define y where "y = remove_comments_universal content ld True"
  have ne: "R \<noteq> []" using False by (simp add: R_def)
  have ends: "hd R \<noteq> []" "last R \<noteq> []"
    using False unfolding R_def cleaned_lines_def by (simp_all add: blank_stage_ends)
  have ndb: "no_double_blank R"
    unfolding R_def cleaned_lines_def by (rule blank_stage_no_double_blank)
  have content: "\<forall>r\<in>set R. r = [] \<or> strip r \<noteq> []"
    unfolding R_def cleaned_lines_def by (blast dest: blank_stage_set)
  have nl: "\<forall>l\<in>set R. NL \<notin> set l" unfolding R_def using cleaned_lines_no_nl by blast
  have sj: "split_nl (join_nl R) = R" using ne nl by (rule split_join_nl)
  have y: "y = (if endswith_nl content then join_nl R @ [NL] else join_nl R)"
    using False by (simp add: y_def R_def remove_comments_all_cases)
  have split: "split_nl y = (if endswith_nl content then R @ [[]] else R)"
    by (simp add: y split_nl_snoc_nl sj)
  have fixed: "process_line ld True r = r" if "r \<in> set R" for r
  proof (cases "r = []")
    case True
    then show ?thesis by simp
  next
    case False
    with that obtain l where "r = inline_while True (inline ld) [] l"
      using cleaned_lines_line [of r ld content] by (auto simp: R_def)
    then have "inline_pass True (inline ld) r = r" by (simp add: inline_while_fixed)
    moreover have "\<not> is_full_line_comment_type ld r"
      using H2 that False by (simp add: R_def)
    ultimately show ?thesis
      using inline_while_of_fixed [of True "inline ld" r "[]"] by (simp add: process_line_def)
  qed
  then have "map (process_line ld True) R = R" by (intro map_idI)
  then have lines: "map (process_line ld True) (split_nl y) = split_nl y"
    by (simp add: split)
  have "cleaned_lines ld y = blank_stage (split_nl y)"
    using H1 by (simp add: cleaned_lines_def y_def [symmetric] lines)
  also have "\<dots> = R"
  proof (cases "endswith_nl content")
    case True
    then have "blank_stage (split_nl y) = blank_stage (R @ [[]])" by (simp only: split if_True)
    also have "\<dots> = R" using ndb ne ends content by (rule blank_stage_id_snoc)
    finally show ?thesis .
  next
    case False
    then have "blank_stage (split_nl y) = blank_stage R" by (simp only: split if_False)
    also have "\<dots> = R" using ndb ends content by (intro blank_stage_id) simp_all
    finally show ?thesis .
  qed
  finally have c: "cleaned_lines ld y = R" .
  have "endswith_nl y = endswith_nl content"
    unfolding y_def by (rule endswith_remove_comments)
  with c ne have "remove_comments_universal y ld True =
      (if endswith_nl content then join_nl R @ [NL] else join_nl R)"
    by (simp only: remove_comments_all_cases [of y] if_False)
  with y have "remove_comments_universal y ld True = y" by (simp only:)
  then show ?thesis by (simp add: y_def)
qed

text \<open>What a match tells about the subject, atom by atom.\<close>

lemma rmatch_One:
  "rmatch d acc (One c # q) m pos s = Some r \<Longrightarrow>
   \<exists>x xs. s = x # xs \<and> cmatch d c x \<and> rmatch d acc q m (Suc pos) xs = Some r"
  by (cases s) (auto split: if_splits)

lemma rmatch_Star:
  "rmatch d acc (Star c # q) m pos s = Some r \<Longrightarrow>
   \<exists>ws rest. s = ws @ rest \<and> (\<forall>x\<in>set ws. cmatch d c x) \<and>
     rmatch d acc q m (pos + length ws) rest = Some r"
proof (induction s arbitrary: pos)
  case Nil
  then have "rmatch d acc q m pos [] = Some r" by simp
  then show ?case by (intro exI [of _ "[]"]) simp
next
  case (Cons x xs)
  show ?case
  proof (cases "cmatch d c x \<and> rmatch d acc (Star c # q) m (Suc pos) xs \<noteq> None")
    case True
    with Cons.prems have "rmatch d acc (Star c # q) m (Suc pos) xs = Some r"
      by (auto split: option.splits)
    from Cons.IH [OF this] obtain ws rest where w: "xs = ws @ rest" "\<forall>x\<in>set ws. cmatch d c x"
      "rmatch d acc q m (Suc pos + length ws) rest = Some r"
      by auto
    show ?thesis
      using w True by (intro exI [of _ "x # ws"] exI [of _ rest]) simp
  next
    case False
    with Cons.prems have "rmatch d acc q m pos (x # xs) = Some r"
      by (auto split: option.splits if_splits)
    then show ?thesis
      by (intro exI [of _ "[]"] exI [of _ "x # xs"]) simp
  qed
qed

lemma rmatch_Lazy:
  "rmatch d acc (Lazy c # q) m pos s = Some r \<Longrightarrow>
   \<exists>ws rest. s = ws @ rest \<and> rmatch d acc q m (pos + length ws) rest = Some r"
proof (induction s arbitrary: pos)
  case Nil
  then have "rmatch d acc q m pos [] = Some r" by simp
  then show ?case by (intro exI [of _ "[]"]) simp
next
  case (Cons x xs)
  show ?case
  proof (cases "rmatch d acc q m pos (x # xs)")
    case (Some r')
    with Cons.prems have "rmatch d acc q m pos (x # xs) = Some r" by simp
    then show ?thesis
      by (intro exI [of _ "[]"] exI [of _ "x # xs"]) simp
  next
    case None
    with Cons.prems have "rmatch d acc (Lazy c # q) m (Suc pos) xs = Some r"
      by (auto split: if_splits)
    from Cons.IH [OF this] obtain ws rest where w: "xs = ws @ rest"
      "rmatch d acc q m (Suc pos + length ws) rest = Some r"
      by auto
    show ?thesis
      using w by (intro exI [of _ "x # ws"] exI [of _ rest]) simp
  qed
qed

text \<open>Without newlines in the subject, \<open>.*$\<close> matches up to its end.\<close>

lemma rmatch_dot_star_eol:
  "NL \<notin> set s \<Longrightarrow>
   rmatch False (\<lambda>e r. r = []) [Star Dot, Eol] m pos s = Some (m, pos + length s)"
  by (induction s arbitrary: pos) auto

text \<open>Under \<open>re.DOTALL\<close>, \<open>.*?\<close> reaches the next occurrence of what follows it.\<close>

lemma rmatch_lazy_reaches:
  "rmatch True (\<lambda>e r. True) q m (pos + length ws) rest \<noteq> None \<Longrightarrow>
   rmatch True (\<lambda>e r. True) (Lazy Dot # q) m pos (ws @ rest) \<noteq> None"
proof (induction ws arbitrary: pos)
  case Nil
  then show ?case by (cases rest) auto
next
  case (Cons x ws)
  then have "rmatch True (\<lambda>e r. True) (Lazy Dot # q) m (Suc pos) (ws @ rest) \<noteq> None"
    by simp
  then show ?case by (auto split: option.splits)
qed

text \<open>Stripping a prefix that holds more than whitespace gives a prefix of the stripped line.\<close>

lemma rstrip_mono:
  assumes "prefix a b" and "rstrip a \<noteq> []"
  shows "prefix (rstrip a) (rstrip b)"
proof -
  from assms(1) obtain z where b: "b = a @ z" by (auto simp: prefix_def)
  show ?thesis
  proof (cases "\<forall>x\<in>set (rev z). isspace x")
    case True
    then have "dropWhile isspace (rev z @ rev a) = dropWhile isspace (rev a)"
      by (simp add: dropWhile_append)
    then have "rstrip b = rstrip a" by (simp add: rstrip_def b)
    then show ?thesis by simp
  next
    case False
    then obtain x where "x \<in> set (rev z)" "\<not> isspace x" by blast
    then have "dropWhile isspace (rev z @ rev a) = dropWhile isspace (rev z) @ rev a"
      by (rule dropWhile_append1)
    then have "rstrip b = a @ rev (dropWhile isspace (rev z))" by (simp add: rstrip_def b)
    then have "prefix a (rstrip b)" by simp
    with rstrip_prefix [of a] show ?thesis by (rule prefix_order.trans)
  qed
qed

lemma lstrip_mono:
  assumes "prefix a b" and "lstrip a \<noteq> []"
  shows "prefix (lstrip a) (lstrip b)"
proof -
  from assms(1) obtain z where b: "b = a @ z" by (auto simp: prefix_def)
  from assms(2) have "dropWhile isspace a \<noteq> []" by (simp add: lstrip_def)
  then obtain x where "x \<in> set a" "\<not> isspace x"
    by (auto simp: dropWhile_eq_Nil_conv)
  then have "dropWhile isspace (a @ z) = dropWhile isspace a @ z"
    by (rule dropWhile_append1)
  then show ?thesis by (simp add: lstrip_def b)
qed

lemma strip_mono:
  assumes "prefix a b" and "strip a \<noteq> []"
  shows "prefix (strip a) (strip b)"
proof -
  from assms(2) have "rstrip a \<noteq> []" by (rule strip_nonempty_rstrip)
  with assms(1) have "prefix (rstrip a) (rstrip b)" by (rule rstrip_mono)
  moreover from assms(2) have "lstrip (rstrip a) \<noteq> []" by (simp add: strip_def)
  ultimately show ?thesis unfolding strip_def by (rule lstrip_mono)
qed

lemma strip_decomp: "\<exists>w w'. s = w @ strip s @ w'"
proof -
  obtain z where z: "s = rstrip s @ z" using rstrip_prefix [of s] by (auto simp: prefix_def)
  have "rstrip s = takeWhile isspace (rstrip s) @ strip s"
    by (simp add: strip_def lstrip_def)
  then have "rstrip s @ z = takeWhile isspace (rstrip s) @ strip s @ z"
    by (metis append.assoc)
  with z have "s = takeWhile isspace (rstrip s) @ strip s @ z" by (rule trans)
  then show ?thesis by blast
qed

lemma strip_no_nl: "NL \<notin> set s \<Longrightarrow> NL \<notin> set (strip s)"
  using strip_decomp [of s] by (metis Un_iff set_append)

lemma strip_hd_not_space: "strip s \<noteq> [] \<Longrightarrow> \<not> isspace (hd (strip s))"
  unfolding strip_def lstrip_def by (rule hd_dropWhile)

lemma join_nl_contains: "r \<in> set ls \<Longrightarrow> \<exists>P Q. join_nl ls = P @ r @ Q"
proof (induction ls rule: join_nl.induct)
  case 1
  then show ?case by simp
next
  case (2 l)
  then have "join_nl [l] = [] @ r @ []" by simp
  then show ?case by blast
next
  case (3 l l' ls)
  show ?case
  proof (cases "r = l")
    case True
    then have "join_nl (l # l' # ls) = [] @ r @ (NL # join_nl (l' # ls))" by simp
    then show ?thesis by blast
  next
    case False
    with "3.prems" have "r \<in> set (l' # ls)" by simp
    then obtain P Q where "join_nl (l' # ls) = P @ r @ Q" using "3.IH" by blast
    then have "join_nl (l # l' # ls) = (l @ NL # P) @ r @ Q" by simp
    then show ?thesis by blast
  qed
qed

text \<open>
  Where a pattern that matches no empty string matches somewhere, the block pass leaves
  something out.
\<close>

lemma re_sub_match_shorter:
  assumes ne: "\<And>acc m pos s k e. rmatch True acc p m pos s = Some (k, e) \<Longrightarrow> e \<noteq> pos"
  shows "rmatch True (\<lambda>e r. True) p 0 (pos + length P) s' \<noteq> None \<Longrightarrow>
    length (re_sub p False pos (P @ s')) < length (P @ s')"
proof (induction P arbitrary: pos)
  case Nil
  then obtain k e where m: "rmatch True (\<lambda>e r. True) p 0 pos s' = Some (k, e)" by auto
  then have e: "e \<noteq> pos" by (rule ne)
  from m have b: "pos \<le> e \<and> e \<le> pos + length s'" by (rule rmatch_end_bounds)
  have "re_sub p False pos s' = re_sub p False e (drop (e - pos) s')"
    using m e by (subst re_sub.simps) simp
  moreover have "length (re_sub p False e (drop (e - pos) s')) \<le> length (drop (e - pos) s')"
    using re_sub_subseq by (rule list_emb_length)
  moreover have "length (drop (e - pos) s') < length s'" using e b by auto
  ultimately show ?case by simp
next
  case (Cons x P)
  show ?case
  proof (cases "rmatch True (\<lambda>e r. True) p 0 pos ((x # P) @ s')")
    case None
    from Cons.prems have "rmatch True (\<lambda>e r. True) p 0 (Suc pos + length P) s' \<noteq> None"
      by simp
    then have "length (re_sub p False (Suc pos) (P @ s')) < length (P @ s')"
      by (rule Cons.IH)
    moreover have "re_sub p False pos ((x # P) @ s') = x # re_sub p False (Suc pos) (P @ s')"
      using None by (subst re_sub.simps) simp
    ultimately show ?thesis by simp
  next
    case (Some ke)
    obtain k e where ke: "ke = (k, e)" by (cases ke)
    with Some have m: "rmatch True (\<lambda>e r. True) p 0 pos ((x # P) @ s') = Some (k, e)" by simp
    then have e: "e \<noteq> pos" by (rule ne)
    from m have b: "pos \<le> e \<and> e \<le> pos + length ((x # P) @ s')" by (rule rmatch_end_bounds)
    have "re_sub p False pos ((x # P) @ s') =
        re_sub p False e (drop (e - pos) ((x # P) @ s'))"
      using m e by (subst re_sub.simps) simp
    moreover have "length (re_sub p False e (drop (e - pos) ((x # P) @ s'))) \<le>
        length (drop (e - pos) ((x # P) @ s'))"
      using re_sub_subseq by (rule list_emb_length)
    moreover have "length (drop (e - pos) ((x # P) @ s')) < length ((x # P) @ s')"
      using e b by auto
    ultimately show ?thesis by simp
  qed
qed

lemma rmatch_One_nonempty: "rmatch d acc (One c # q) m pos s = Some (k, e) \<Longrightarrow> e \<noteq> pos"
proof -
  assume "rmatch d acc (One c # q) m pos s = Some (k, e)"
  then obtain x xs where "rmatch d acc q m (Suc pos) xs = Some (k, e)"
    using rmatch_One by blast
  then have "Suc pos \<le> e" using rmatch_end_bounds by blast
  then show ?thesis by simp
qed

abbreviation slash :: cp where "slash \<equiv> ord CHR ''/''"
abbreviation star :: cp where "star \<equiv> ord CHR ''*''"

lemma block_c_changes:
  "re_sub block_c False 0 (P @ slash # star # B @ star # slash # Q) \<noteq>
   P @ slash # star # B @ star # slash # Q"
proof -
  have "rmatch True (\<lambda>e r. True) [lit CHR ''*'', lit CHR ''/''] 0
      (Suc (Suc (0 + length P)) + length B) (star # slash # Q) \<noteq> None"
    by simp
  then have "rmatch True (\<lambda>e r. True) [Lazy Dot, lit CHR ''*'', lit CHR ''/''] 0
      (Suc (Suc (0 + length P))) (B @ star # slash # Q) \<noteq> None"
    by (rule rmatch_lazy_reaches)
  then have "rmatch True (\<lambda>e r. True) block_c 0 (0 + length P)
      (slash # star # B @ star # slash # Q) \<noteq> None"
    by (simp add: block_c_def)
  then have "length (re_sub block_c False 0 (P @ slash # star # B @ star # slash # Q)) <
      length (P @ slash # star # B @ star # slash # Q)"
    by (intro re_sub_match_shorter) (auto simp: block_c_def dest: rmatch_One_nonempty)
  then show ?thesis by auto
qed

lemma full_block_contains:
  assumes "re_fullmatch full_block s \<noteq> None"
  shows "\<exists>A B C. s = A @ slash # star # B @ star # slash # C"
proof -
  from assms obtain r where "rmatch False (\<lambda>e r. r = [])
      [Star Space, lit CHR ''/'', lit CHR ''*'', Lazy Dot, lit CHR ''*'', lit CHR ''/'',
       Star Space, Eol] 0 0 s = Some r"
    by (auto simp: re_fullmatch_def full_block_def)
  from rmatch_Star [OF this] obtain A r1 where A: "s = A @ r1"
    and "rmatch False (\<lambda>e r. r = [])
      [lit CHR ''/'', lit CHR ''*'', Lazy Dot, lit CHR ''*'', lit CHR ''/'', Star Space, Eol]
      0 (0 + length A) r1 = Some r"
    by blast
  from rmatch_One [OF this(2)] obtain r2 where r1: "r1 = slash # r2"
    and "rmatch False (\<lambda>e r. r = [])
      [lit CHR ''*'', Lazy Dot, lit CHR ''*'', lit CHR ''/'', Star Space, Eol]
      0 (Suc (0 + length A)) r2 = Some r"
    by auto
  from rmatch_One [OF this(2)] obtain r3 where r2: "r2 = star # r3"
    and "rmatch False (\<lambda>e r. r = [])
      [Lazy Dot, lit CHR ''*'', lit CHR ''/'', Star Space, Eol]
      0 (Suc (Suc (0 + length A))) r3 = Some r"
    by auto
  from rmatch_Lazy [OF this(2)] obtain B r4 where r3: "r3 = B @ r4"
    and "rmatch False (\<lambda>e r. r = [])
      [lit CHR ''*'', lit CHR ''/'', Star Space, Eol]
      0 (Suc (Suc (0 + length A)) + length B) r4 = Some r"
    by blast
  from rmatch_One [OF this(2)] obtain r5 where r4: "r4 = star # r5"
    and "rmatch False (\<lambda>e r. r = []) [lit CHR ''/'', Star Space, Eol]
      0 (Suc (Suc (Suc (0 + length A)) + length B)) r5 = Some r"
    by auto
  from rmatch_One [OF this(2)] obtain C where r5: "r5 = slash # C"
    by auto
  have "s = A @ slash # star # B @ star # slash # C"
    by (simp add: A r1 r2 r3 r4 r5)
  then show ?thesis by blast
qed

abbreviation xml_open :: pystr where
  "xml_open \<equiv> [ord CHR ''<'', ord CHR ''!'', ord CHR ''-'', ord CHR ''-'']"

abbreviation xml_close :: pystr where
  "xml_close \<equiv> [ord CHR ''-'', ord CHR ''-'', ord CHR ''>'']"

lemma block_xml_changes:
  "re_sub block_xml False 0 (P @ xml_open @ B @ xml_close @ Q) \<noteq>
   P @ xml_open @ B @ xml_close @ Q"
proof -
  have "rmatch True (\<lambda>e r. True) [lit CHR ''-'', lit CHR ''-'', lit CHR ''>''] 0
      (Suc (Suc (Suc (Suc (0 + length P)))) + length B) (xml_close @ Q) \<noteq> None"
    by simp
  then have "rmatch True (\<lambda>e r. True) [Lazy Dot, lit CHR ''-'', lit CHR ''-'', lit CHR ''>''] 0
      (Suc (Suc (Suc (Suc (0 + length P))))) (B @ xml_close @ Q) \<noteq> None"
    by (rule rmatch_lazy_reaches)
  then have "rmatch True (\<lambda>e r. True) block_xml 0 (0 + length P)
      (xml_open @ B @ xml_close @ Q) \<noteq> None"
    by (simp add: block_xml_def)
  then have "length (re_sub block_xml False 0 (P @ xml_open @ B @ xml_close @ Q)) <
      length (P @ xml_open @ B @ xml_close @ Q)"
    by (intro re_sub_match_shorter) (auto simp: block_xml_def dest: rmatch_One_nonempty)
  then show ?thesis by auto
qed

lemma full_xml_contains:
  assumes "re_fullmatch full_xml s \<noteq> None"
  shows "\<exists>A B C. s = A @ xml_open @ B @ xml_close @ C"
proof -
  from assms obtain r where "rmatch False (\<lambda>e r. r = [])
      [Star Space, lit CHR ''<'', lit CHR ''!'', lit CHR ''-'', lit CHR ''-'', Lazy Dot,
       lit CHR ''-'', lit CHR ''-'', lit CHR ''>'', Star Space, Eol] 0 0 s = Some r"
    by (auto simp: re_fullmatch_def full_xml_def)
  from rmatch_Star [OF this] obtain A r1 where A: "s = A @ r1"
    and "rmatch False (\<lambda>e r. r = [])
      [lit CHR ''<'', lit CHR ''!'', lit CHR ''-'', lit CHR ''-'', Lazy Dot,
       lit CHR ''-'', lit CHR ''-'', lit CHR ''>'', Star Space, Eol]
      0 (0 + length A) r1 = Some r"
    by blast
  from rmatch_One [OF this(2)] obtain r2 where r1: "r1 = ord CHR ''<'' # r2"
    and "rmatch False (\<lambda>e r. r = [])
      [lit CHR ''!'', lit CHR ''-'', lit CHR ''-'', Lazy Dot,
       lit CHR ''-'', lit CHR ''-'', lit CHR ''>'', Star Space, Eol]
      0 (Suc (0 + length A)) r2 = Some r"
    by auto
  from rmatch_One [OF this(2)] obtain r3 where r2: "r2 = ord CHR ''!'' # r3"
    and "rmatch False (\<lambda>e r. r = [])
      [lit CHR ''-'', lit CHR ''-'', Lazy Dot,
       lit CHR ''-'', lit CHR ''-'', lit CHR ''>'', Star Space, Eol]
      0 (Suc (Suc (0 + length A))) r3 = Some r"
    by auto
  from rmatch_One [OF this(2)] obtain r4 where r3: "r3 = ord CHR ''-'' # r4"
    and "rmatch False (\<lambda>e r. r = [])
      [lit CHR ''-'', Lazy Dot, lit CHR ''-'', lit CHR ''-'', lit CHR ''>'', Star Space, Eol]
      0 (Suc (Suc (Suc (0 + length A)))) r4 = Some r"
    by auto
  from rmatch_One [OF this(2)] obtain r5 where r4: "r4 = ord CHR ''-'' # r5"
    and "rmatch False (\<lambda>e r. r = [])
      [Lazy Dot, lit CHR ''-'', lit CHR ''-'', lit CHR ''>'', Star Space, Eol]
      0 (Suc (Suc (Suc (Suc (0 + length A))))) r5 = Some r"
    by auto
  from rmatch_Lazy [OF this(2)] obtain B r6 where r5: "r5 = B @ r6"
    and "rmatch False (\<lambda>e r. r = [])
      [lit CHR ''-'', lit CHR ''-'', lit CHR ''>'', Star Space, Eol]
      0 (Suc (Suc (Suc (Suc (0 + length A)))) + length B) r6 = Some r"
    by blast
  from rmatch_One [OF this(2)] obtain r7 where r6: "r6 = ord CHR ''-'' # r7"
    and "rmatch False (\<lambda>e r. r = []) [lit CHR ''-'', lit CHR ''>'', Star Space, Eol]
      0 (Suc (Suc (Suc (Suc (Suc (0 + length A)))) + length B)) r7 = Some r"
    by auto
  from rmatch_One [OF this(2)] obtain r8 where r7: "r7 = ord CHR ''-'' # r8"
    and "rmatch False (\<lambda>e r. r = []) [lit CHR ''>'', Star Space, Eol]
      0 (Suc (Suc (Suc (Suc (Suc (Suc (0 + length A)))) + length B))) r8 = Some r"
    by auto
  from rmatch_One [OF this(2)] obtain C where r8: "r8 = ord CHR ''>'' # C"
    by auto
  have "s = A @ xml_open @ B @ xml_close @ C"
    by (simp add: A r1 r2 r3 r4 r5 r6 r7 r8)
  then show ?thesis by blast
qed

text \<open>
  The patterns \<open>^\s*#.*$\<close> and \<open>^\s*//.*$\<close>: a line that starts like a match, and holds
  no newline, is a match.
\<close>

lemma full_hash_first:
  assumes "re_fullmatch full_hash s \<noteq> None" and "s = [] \<or> \<not> isspace (hd s)"
  shows "\<exists>rest. s = ord CHR ''#'' # rest"
proof -
  from assms(1) obtain r where "rmatch False (\<lambda>e r. r = [])
      [Star Space, lit CHR ''#'', Star Dot, Eol] 0 0 s = Some r"
    by (auto simp: re_fullmatch_def full_hash_def)
  from rmatch_Star [OF this] obtain ws r1 where ws: "s = ws @ r1" "\<forall>x\<in>set ws. isspace x"
    and "rmatch False (\<lambda>e r. r = []) [lit CHR ''#'', Star Dot, Eol] 0 (0 + length ws) r1 = Some r"
    by auto
  from rmatch_One [OF this(3)] obtain r2 where r1: "r1 = ord CHR ''#'' # r2" by auto
  from ws r1 assms(2) have "ws = []" by (cases ws) auto
  with ws r1 show ?thesis by simp
qed

lemma full_hash_complete:
  "NL \<notin> set rest \<Longrightarrow> re_fullmatch full_hash (ord CHR ''#'' # rest) \<noteq> None"
  using not_space_markers(1)
  by (simp add: re_fullmatch_def full_hash_def rmatch_dot_star_eol)

lemma full_slashes_first:
  assumes "re_fullmatch full_slashes s \<noteq> None" and "s = [] \<or> \<not> isspace (hd s)"
  shows "\<exists>rest. s = slash # slash # rest"
proof -
  from assms(1) obtain r where "rmatch False (\<lambda>e r. r = [])
      [Star Space, lit CHR ''/'', lit CHR ''/'', Star Dot, Eol] 0 0 s = Some r"
    by (auto simp: re_fullmatch_def full_slashes_def)
  from rmatch_Star [OF this] obtain ws r1 where ws: "s = ws @ r1" "\<forall>x\<in>set ws. isspace x"
    and "rmatch False (\<lambda>e r. r = []) [lit CHR ''/'', lit CHR ''/'', Star Dot, Eol]
      0 (0 + length ws) r1 = Some r"
    by auto
  from rmatch_One [OF this(3)] obtain r2 where r1: "r1 = slash # r2"
    and "rmatch False (\<lambda>e r. r = []) [lit CHR ''/'', Star Dot, Eol]
      0 (Suc (0 + length ws)) r2 = Some r"
    by auto
  from rmatch_One [OF this(2)] obtain r3 where r2: "r2 = slash # r3" by auto
  from ws r1 assms(2) have "ws = []" by (cases ws) auto
  with ws r1 r2 show ?thesis by simp
qed

lemma full_slashes_complete:
  "NL \<notin> set rest \<Longrightarrow> re_fullmatch full_slashes (slash # slash # rest) \<noteq> None"
  using not_space_markers(2)
  by (simp add: re_fullmatch_def full_slashes_def rmatch_dot_star_eol)

lemma full_hash_upward:
  assumes "NL \<notin> set l" and "prefix r l" and "strip r \<noteq> []"
    and "re_fullmatch full_hash (strip r) \<noteq> None"
  shows "re_fullmatch full_hash (strip l) \<noteq> None"
proof -
  from assms(3) have "\<not> isspace (hd (strip r))" by (rule strip_hd_not_space)
  with assms(4) obtain rest where r: "strip r = ord CHR ''#'' # rest"
    using full_hash_first by blast
  from assms(2,3) have "prefix (strip r) (strip l)" by (rule strip_mono)
  with r obtain rest' where l: "strip l = ord CHR ''#'' # rest'"
    by (auto simp: prefix_def)
  from assms(1) have "NL \<notin> set (strip l)" by (rule strip_no_nl)
  with l have "NL \<notin> set rest'" by simp
  then show ?thesis unfolding l by (rule full_hash_complete)
qed

lemma full_slashes_upward:
  assumes "NL \<notin> set l" and "prefix r l" and "strip r \<noteq> []"
    and "re_fullmatch full_slashes (strip r) \<noteq> None"
  shows "re_fullmatch full_slashes (strip l) \<noteq> None"
proof -
  from assms(3) have "\<not> isspace (hd (strip r))" by (rule strip_hd_not_space)
  with assms(4) obtain rest where r: "strip r = slash # slash # rest"
    using full_slashes_first by blast
  from assms(2,3) have "prefix (strip r) (strip l)" by (rule strip_mono)
  with r obtain rest' where l: "strip l = slash # slash # rest'"
    by (auto simp: prefix_def)
  from assms(1) have "NL \<notin> set (strip l)" by (rule strip_no_nl)
  with l have "NL \<notin> set rest'" by simp
  then show ?thesis unfolding l by (rule full_slashes_complete)
qed

text \<open>
  Each full-line pattern of the table is a line comment, or it is the block comment of a
  language whose block pattern removes it from the whole content.
\<close>

definition full_lines_settled :: "lang_def \<Rightarrow> bool" where
  "full_lines_settled ld \<longleftrightarrow>
     (\<forall>fl\<in>set (full_line ld). fl = full_hash \<or> fl = full_slashes \<or>
        (fl = full_block \<and> block_dotall ld = Some block_c) \<or>
        (fl = full_xml \<and> block_dotall ld = Some block_xml))"

lemma language_map_settled: "map_of LANGUAGE_MAP e = Some ld \<Longrightarrow> full_lines_settled ld"
  by (drule language_map_values) (auto simp: full_lines_settled_def eval_lang)

lemma output_contains_line:
  assumes "r \<in> set (cleaned_lines ld content)"
  shows "\<exists>P Q. remove_comments_universal content ld True = P @ r @ Q"
proof -
  from assms obtain P Q where j: "join_nl (cleaned_lines ld content) = P @ r @ Q"
    using join_nl_contains by blast
  from assms have ne: "cleaned_lines ld content \<noteq> []" by auto
  show ?thesis
  proof (cases "endswith_nl content")
    case True
    with ne j have "remove_comments_universal content ld True = P @ r @ (Q @ [NL])"
      by (simp add: remove_comments_all_cases)
    then show ?thesis by blast
  next
    case False
    with ne j have "remove_comments_universal content ld True = P @ r @ Q"
      by (simp add: remove_comments_all_cases)
    then show ?thesis by blast
  qed
qed

lemma cleaned_lines_not_full_line:
  assumes settled: "full_lines_settled ld"
    and H1: "block_stage ld True (remove_comments_universal content ld True) =
      remove_comments_universal content ld True"
    and r: "r \<in> set (cleaned_lines ld content)" "r \<noteq> []"
  shows "\<not> is_full_line_comment_type ld r"
proof
  assume "is_full_line_comment_type ld r"
  then obtain fl where fl: "fl \<in> set (full_line ld)" "re_fullmatch fl (strip r) \<noteq> None"
    by (auto simp: is_full_line_comment_type_def list_ex_iff)
  from r obtain l where l: "l \<in> set (split_nl (block_stage ld True content))"
    "\<not> is_full_line_comment_type ld l" "r = inline_while True (inline ld) [] l" "strip r \<noteq> []"
    using cleaned_lines_line by blast
  from l(1) have nl: "NL \<notin> set l" by (rule split_nl_no_nl)
  from l(3) have pre: "prefix r l" by (simp add: inline_while_prefix)
  have nomatch: "re_fullmatch fl (strip l) = None"
  proof (rule ccontr)
    assume "re_fullmatch fl (strip l) \<noteq> None"
    with fl(1) have "is_full_line_comment_type ld l"
      unfolding is_full_line_comment_type_def list_ex_iff by blast
    with l(2) show False by simp
  qed
  obtain w w' where sr: "r = w @ strip r @ w'" using strip_decomp by blast
  obtain P Q where y: "remove_comments_universal content ld True = P @ r @ Q"
    using r(1) output_contains_line by blast
  from settled fl(1) consider "fl = full_hash" | "fl = full_slashes"
    | "fl = full_block" "block_dotall ld = Some block_c"
    | "fl = full_xml" "block_dotall ld = Some block_xml"
    unfolding full_lines_settled_def by blast
  then show False
  proof cases
    case 1
    with fl(2) nomatch show False using full_hash_upward [OF nl pre l(4)] by simp
  next
    case 2
    with fl(2) nomatch show False using full_slashes_upward [OF nl pre l(4)] by simp
  next
    case 3
    with fl(2) obtain A B C where "strip r = A @ slash # star # B @ star # slash # C"
      using full_block_contains by blast
    with sr have "r = (w @ A) @ slash # star # B @ star # slash # (C @ w')" by simp
    with y have "remove_comments_universal content ld True =
        (P @ w @ A) @ slash # star # B @ star # slash # (C @ w' @ Q)"
      by simp
    moreover from 3(2) H1 have "re_sub block_c False 0 (remove_comments_universal content ld True) =
        remove_comments_universal content ld True"
      by (simp add: block_stage_def block_c_def)
    ultimately show False using block_c_changes by metis
  next
    case 4
    with fl(2) obtain A B C where "strip r = A @ xml_open @ B @ xml_close @ C"
      using full_xml_contains by blast
    with sr have "r = (w @ A) @ xml_open @ B @ xml_close @ (C @ w')" by simp
    with y have "remove_comments_universal content ld True =
        (P @ w @ A) @ xml_open @ B @ xml_close @ (C @ w' @ Q)"
      by simp
    moreover from 4(2) H1 have "re_sub block_xml False 0 (remove_comments_universal content ld True) =
        remove_comments_universal content ld True"
      by (simp add: block_stage_def block_xml_def)
    ultimately show False using block_xml_changes by metis
  qed
qed

lemma language_map_idem:
  assumes "map_of LANGUAGE_MAP e = Some ld"
    and "remove_all \<longrightarrow> block_stage ld True (remove_comments_universal content ld True) =
      remove_comments_universal content ld True"
  shows "remove_comments_universal (remove_comments_universal content ld remove_all) ld remove_all =
    remove_comments_universal content ld remove_all"
proof (cases remove_all)
  case False
  then show ?thesis by (simp add: remove_comments_inline_idem)
next
  case True
  with assms(2) have H1: "block_stage ld True (remove_comments_universal content ld True) =
      remove_comments_universal content ld True"
    by simp
  from assms(1) have "full_lines_settled ld" by (rule language_map_settled)
  then have "\<forall>r\<in>set (cleaned_lines ld content). r \<noteq> [] \<longrightarrow> \<not> is_full_line_comment_type ld r"
    using H1 cleaned_lines_not_full_line by blast
  with H1 True show ?thesis by (simp add: remove_comments_all_idem)
qed

text \<open>
  An input in which the removal of one block comment puts a new one together:
  \<open>a //**/* */ z\<close> holds \<open>/**/\<close> between \<open>/\<close> and \<open>* */\<close>.
\<close>

definition splice_input :: pystr where
  "splice_input = S ''a //**/* */ z''"

definition splice_once :: pystr where
  "splice_once = S ''a /* */ z''"

definition splice_twice :: pystr where
  "splice_twice = S ''a  z''"

lemma splice_block_once: "block_stage c_like True splice_input = splice_once"
  by (simp add: splice_input_def splice_once_def block_stage_def eval_lang eval_regex
      eval_strings re_sub.simps)

lemma splice_block_twice: "block_stage c_like True splice_once = splice_twice"
  by (simp add: splice_once_def splice_twice_def block_stage_def eval_lang eval_regex
      eval_strings re_sub.simps)

lemma splice_line_once: "process_line c_like True splice_once = splice_once"
  by (simp add: splice_once_def eval_line eval_lang eval_regex eval_strings)

lemma splice_line_twice: "process_line c_like True splice_twice = splice_twice"
  by (simp add: splice_twice_def eval_line eval_lang eval_regex eval_strings)

lemma splice_split: "split_nl splice_once = [splice_once]" "split_nl splice_twice = [splice_twice]"
  by (simp_all add: splice_once_def splice_twice_def eval_strings)

lemma splice_blank:
  "blank_stage [splice_once] = [splice_once]" "blank_stage [splice_twice] = [splice_twice]"
  by (simp_all add: splice_once_def splice_twice_def eval_stages strip_def lstrip_def
      rstrip_def isspace_def eval_strings)

lemma splice_cleaned:
  "cleaned_lines c_like splice_input = [splice_once]"
  "cleaned_lines c_like splice_once = [splice_twice]"
  unfolding cleaned_lines_def
  by (simp_all only: splice_block_once splice_block_twice splice_split list.map
      splice_line_once splice_line_twice splice_blank)

lemma splice_ends:
  "\<not> endswith_nl splice_input" "\<not> endswith_nl splice_once"
  by (simp_all add: splice_input_def splice_once_def endswith_nl_def eval_strings)

lemma splice_remove_once: "remove_comments_universal splice_input c_like True = splice_once"
  by (simp add: remove_comments_all_cases splice_cleaned splice_ends)

lemma splice_remove_twice: "remove_comments_universal splice_once c_like True = splice_twice"
  by (simp add: remove_comments_all_cases splice_cleaned splice_ends)

text \<open>
  C1, as claimed, fails: for \<open>.c\<close> under \<open>remove_all\<close> the first application turns
  \<open>a //**/* */ z\<close> into \<open>a /* */ z\<close>, and the second turns that into \<open>a  z\<close>.
\<close>

theorem C1_idempotence_counterexample:
  "process_code_content ascii_lower splice_input (S ''.c'') True = S ''a /* */ z'' \<and>
   process_code_content ascii_lower
     (process_code_content ascii_lower splice_input (S ''.c'') True) (S ''.c'') True =
     S ''a  z'' \<and>
   process_code_content ascii_lower
     (process_code_content ascii_lower splice_input (S ''.c'') True) (S ''.c'') True \<noteq>
   process_code_content ascii_lower splice_input (S ''.c'') True"
proof -
  have "splice_twice \<noteq> splice_once"
    by (simp add: splice_once_def splice_twice_def eval_strings)
  then show ?thesis
    by (simp add: process_code_content_def scenario_c_ext splice_remove_once splice_remove_twice)
      (simp add: splice_once_def splice_twice_def)
qed

text \<open>
  C1, amended. Applying the transform twice gives what applying it once gives: without
  \<open>remove_all\<close>, for an extension that is not in the map, and under \<open>remove_all\<close>
  whenever the block pass leaves the first output as it is. A language without a block
  pattern has no block pass, so that for it the transform is idempotent in both modes.
\<close>

theorem C1_idempotent_unless_block_spliced:
  assumes "\<forall>ld. remove_all \<and> map_of LANGUAGE_MAP (lower file_extension) = Some ld \<longrightarrow>
      block_dotall ld = None \<or>
      block_stage ld True (process_code_content lower content file_extension True) =
        process_code_content lower content file_extension True"
  shows "process_code_content lower
      (process_code_content lower content file_extension remove_all) file_extension remove_all =
    process_code_content lower content file_extension remove_all"
proof (cases "map_of LANGUAGE_MAP (lower file_extension)")
  case None
  then show ?thesis by (simp add: process_code_content_def)
next
  case (Some ld)
  have "remove_all \<longrightarrow> block_stage ld True (remove_comments_universal content ld True) =
      remove_comments_universal content ld True"
  proof
    assume remove_all
    with assms Some have "block_dotall ld = None \<or>
        block_stage ld True (remove_comments_universal content ld True) =
          remove_comments_universal content ld True"
      by (simp add: process_code_content_def)
    then show "block_stage ld True (remove_comments_universal content ld True) =
        remove_comments_universal content ld True"
      by (auto simp: block_stage_def)
  qed
  with Some have "remove_comments_universal (remove_comments_universal content ld remove_all)
      ld remove_all = remove_comments_universal content ld remove_all"
    by (rule language_map_idem)
  with Some show ?thesis by (simp add: process_code_content_def)
qed

lemma blank_run_remove:
  "remove_comments_universal blank_run_input python_like True =
   S ''x = 1'' @ [NL, NL] @ S ''y = 2'' @ [NL]"
  by (simp add: remove_comments_all_cases blank_run_cleaned)
    (simp add: blank_run_input_def endswith_nl_def eval_strings)

lemma scenario_c_out_block: "block_stage c_like True scenario_c_out = scenario_c_out"
  by (simp add: scenario_c_out_def block_stage_def eval_lang eval_regex eval_strings
      re_sub.simps)

lemma scenario_c_remove: "process_code_content ascii_lower scenario_c (S ''.c'') True = scenario_c_out"
proof -
  have "remove_comments_universal scenario_c c_like True = scenario_c_out"
    unfolding remove_comments_universal_def Let_def
    by (simp only: scenario_c_block scenario_c_split scenario_c_lines scenario_c_blank
        scenario_c_newline if_True)
  then show ?thesis by (simp add: process_code_content_def scenario_c_ext)
qed

theorem C1_idempotent_unless_block_spliced_witness:
  "process_code_content ascii_lower blank_run_input (S ''.py'') True =
     S ''x = 1'' @ [NL, NL] @ S ''y = 2'' @ [NL] \<and>
   process_code_content ascii_lower
     (process_code_content ascii_lower blank_run_input (S ''.py'') True) (S ''.py'') True =
     S ''x = 1'' @ [NL, NL] @ S ''y = 2'' @ [NL] \<and>
   block_stage c_like True (process_code_content ascii_lower scenario_c (S ''.c'') True) =
     process_code_content ascii_lower scenario_c (S ''.c'') True \<and>
   process_code_content ascii_lower
     (process_code_content ascii_lower scenario_c (S ''.c'') True) (S ''.c'') True =
     process_code_content ascii_lower scenario_c (S ''.c'') True"
proof -
  have py: "\<forall>ld. True \<and> map_of LANGUAGE_MAP (ascii_lower (S ''.py'')) = Some ld \<longrightarrow>
      block_dotall ld = None \<or>
      block_stage ld True (process_code_content ascii_lower blank_run_input (S ''.py'') True) =
        process_code_content ascii_lower blank_run_input (S ''.py'') True"
    by (simp add: py_ext python_like_def)
  have c: "\<forall>ld. True \<and> map_of LANGUAGE_MAP (ascii_lower (S ''.c'')) = Some ld \<longrightarrow>
      block_dotall ld = None \<or>
      block_stage ld True (process_code_content ascii_lower scenario_c (S ''.c'') True) =
        process_code_content ascii_lower scenario_c (S ''.c'') True"
    by (simp add: scenario_c_ext scenario_c_remove scenario_c_out_block)
  have one: "process_code_content ascii_lower blank_run_input (S ''.py'') True =
      S ''x = 1'' @ [NL, NL] @ S ''y = 2'' @ [NL]"
    by (simp add: process_code_content_def py_ext blank_run_remove)
  show ?thesis
    using C1_idempotent_unless_block_spliced [OF py] C1_idempotent_unless_block_spliced [OF c]
      one
    by (simp add: scenario_c_remove scenario_c_out_block)
qed

end
